theory Spec2Isabelle
  imports Complex_Main "HOL-Library.Word" "HOL-Library.Log_Nat"
begin

unbundle bit_operations_syntax

section \<open>The sliding-window rate limiter of \<^verbatim>\<open>src/_worker.js\<close>\<close>

text \<open>
  Conventions of the embedding.
  \<^item> JavaScript numbers that hold timestamps, durations and counters are modelled as
    \<open>int\<close>: they are integers far below \<open>2^53\<close>, where double arithmetic on them is exact.
  \<^item> The one fractional computation, the weighted count, is done in double precision as
    the source does it: every operation is computed exactly on rationals and its result is
    rounded to the nearest double (\<open>round_double\<close>).
  \<^item> \<open>Date.now()\<close> is a parameter \<open>now\<close> of every operation that reads the clock; the
    reads made while one call or one request is handled return the same instant.
  \<^item> A \<open>Map\<close> from keys to record objects is a map \<open>string \<rightharpoonup> window_record\<close>. The
    record objects are mutated in place by the source, so every path of an operation, also
    one that returns without calling \<open>records.set\<close>, stores the mutated record.
  \<^item> The window size is assumed positive where a theorem says so: with \<open>windowMs = 0\<close>
    the source divides by zero and continues with \<open>Infinity\<close> and \<open>NaN\<close>.
\<close>

subsection \<open>Data\<close>

record window_record =
  prevCount :: int
  currCount :: int
  windowStart :: int
  bannedUntil :: "int option"

record RateLimiter =
  windowMs :: int
  maxRequests :: int
  records :: "string \<rightharpoonup> window_record"
  lastCleanup :: int
  cleanupInterval :: int

text \<open>The constructor; \<open>now\<close> is the value of \<open>Date.now()\<close> at construction.\<close>

definition new_RateLimiter :: "int \<Rightarrow> int \<Rightarrow> int \<Rightarrow> RateLimiter" where
  "new_RateLimiter w m now =
     \<lparr>windowMs = w, maxRequests = m, records = Map.empty, lastCleanup = now,
      cleanupInterval = 5 * 60 * 1000\<rparr>"

text \<open>
  Truthiness of the field \<open>bannedUntil\<close>, which holds \<open>null\<close> or a number: \<open>null\<close> and
  the number \<open>0\<close> are falsy.
\<close>

fun truthy :: "int option \<Rightarrow> bool" where
  "truthy None = False"
| "truthy (Some t) = (t \<noteq> 0)"

text \<open>\<open>record.bannedUntil && now < record.bannedUntil\<close>\<close>

fun banActive :: "int option \<Rightarrow> int \<Rightarrow> bool" where
  "banActive None now = False"
| "banActive (Some t) now = (t \<noteq> 0 \<and> now < t)"

text \<open>\<open>record.bannedUntil && now >= record.bannedUntil\<close>\<close>

fun banExpired :: "int option \<Rightarrow> int \<Rightarrow> bool" where
  "banExpired None now = False"
| "banExpired (Some t) now = (t \<noteq> 0 \<and> now \<ge> t)"

subsection \<open>The sweep\<close>

text \<open>The test \<open>isExpired\<close> in the loop of \<open>_cleanup\<close>.\<close>

definition isExpired :: "RateLimiter \<Rightarrow> int \<Rightarrow> window_record \<Rightarrow> bool" where
  "isExpired L now r =
     (if truthy (bannedUntil r)
      then banExpired (bannedUntil r) now \<and> now - windowStart r \<ge> windowMs L
      else now - windowStart r \<ge> windowMs L * 2)"

text \<open>
  \<open>_cleanup\<close>: nothing happens before the cleanup interval has passed; otherwise every
  expired record is deleted. The count \<open>deleted\<close> only feeds a log line.
\<close>

definition cleanup :: "RateLimiter \<Rightarrow> int \<Rightarrow> RateLimiter" where
  "cleanup L now =
     (if now - lastCleanup L < cleanupInterval L then L
      else L\<lparr>lastCleanup := now,
             records := (\<lambda>key. case records L key of
                                 None \<Rightarrow> None
                               | Some r \<Rightarrow> if isExpired L now r then None else Some r)\<rparr>)"

subsection \<open>Double precision\<close>

text \<open>
  A double has a significand of 53 bits. \<open>round_even\<close> rounds to the nearest integer, a
  tie to the even one. \<open>binary_exponent x\<close>, for \<open>x > 0\<close>, is the \<open>e\<close> with
  \<open>2 ^ e \<le> x < 2 ^ (e + 1)\<close>: with \<open>x = p / q\<close> it is the difference of the bit lengths of
  \<open>p\<close> and \<open>q\<close>, or one less.
\<close>

definition round_even :: "rat \<Rightarrow> int" where
  "round_even y =
     (let f = \<lfloor>y\<rfloor>; d = y - of_int f in
      if d < 1 / 2 then f
      else if 1 / 2 < d then f + 1
      else if even f then f else f + 1)"

definition binary_exponent :: "rat \<Rightarrow> int" where
  "binary_exponent x =
     (let d = bitlen (fst (quotient_of x)) - bitlen (snd (quotient_of x)) in
      if 2 powi d \<le> x then d else d - 1)"

text \<open>
  \<open>round_double x\<close>: the double nearest to \<open>x\<close>, a tie to the even significand. An integer
  is returned as it is, by the convention on integers above (an integer up to \<open>2^53\<close> is a
  double). Any other value is scaled to a significand between \<open>2^52\<close> and \<open>2^53\<close>, which
  is rounded to an integer. Overflow and subnormal numbers are not modelled: the quotient
  of two timestamps and its products with a counter are far from both.
\<close>

definition round_double :: "rat \<Rightarrow> rat" where
  "round_double x =
     (if of_int \<lfloor>x\<rfloor> = x then x
      else (let e = binary_exponent \<bar>x\<bar>;
                m = round_even (\<bar>x\<bar> * 2 powi (52 - e))
            in sgn x * of_int m * 2 powi (e - 52)))"

text \<open>The operators \<open>/\<close>, \<open>-\<close>, \<open>*\<close> and \<open>+\<close> on doubles.\<close>

definition fl_div :: "rat \<Rightarrow> rat \<Rightarrow> rat" where
  "fl_div x y = round_double (x / y)"

definition fl_sub :: "rat \<Rightarrow> rat \<Rightarrow> rat" where
  "fl_sub x y = round_double (x - y)"

definition fl_mul :: "rat \<Rightarrow> rat \<Rightarrow> rat" where
  "fl_mul x y = round_double (x * y)"

definition fl_add :: "rat \<Rightarrow> rat \<Rightarrow> rat" where
  "fl_add x y = round_double (x + y)"

subsection \<open>The weighted count\<close>

text \<open>
  \<open>_getWeightedCount\<close>:
  \<open>Math.floor(record.prevCount * Math.max(0, 1 - elapsed / this.windowMs) + record.currCount)\<close>
  when \<open>elapsed < this.windowMs\<close>, and 0 otherwise.
\<close>

definition getWeightedCount :: "RateLimiter \<Rightarrow> window_record \<Rightarrow> int \<Rightarrow> int" where
  "getWeightedCount L r now =
     (let elapsed = now - windowStart r in
      if elapsed < windowMs L
      then (let prevWeight = max 0 (fl_sub 1 (fl_div (of_int elapsed) (of_int (windowMs L))))
            in \<lfloor>fl_add (fl_mul (of_int (prevCount r)) prevWeight) (of_int (currCount r))\<rfloor>)
      else 0)"

subsection \<open>checkAndIncrement\<close>

text \<open>The body of \<open>if (elapsed >= this.windowMs) { ... }\<close>.\<close>

definition slide :: "RateLimiter \<Rightarrow> window_record \<Rightarrow> int \<Rightarrow> window_record" where
  "slide L r elapsed =
     (let windowsToSlide = \<lfloor>(of_int elapsed :: rat) / of_int (windowMs L)\<rfloor>;
          r' = (if windowsToSlide = 1
                then r\<lparr>prevCount := currCount r, currCount := 0\<rparr>
                else r\<lparr>prevCount := 0, currCount := 0\<rparr>)
      in r'\<lparr>windowStart := windowStart r' + windowsToSlide * windowMs L\<rparr>)"

definition checkAndIncrement :: "RateLimiter \<Rightarrow> string \<Rightarrow> int \<Rightarrow> bool \<times> RateLimiter" where
  "checkAndIncrement L0 key now =
     (let L = cleanup L0 now in
      case records L key of
        None \<Rightarrow>
          (True, L\<lparr>records := (records L)(key \<mapsto>
             \<lparr>prevCount = 0, currCount = 1, windowStart = now, bannedUntil = None\<rparr>)\<rparr>)
      | Some record \<Rightarrow>
          if banActive (bannedUntil record) now then (False, L)
          else
            (let r1 = (if banExpired (bannedUntil record) now
                       then record\<lparr>bannedUntil := None\<rparr> else record);
                 elapsed = now - windowStart r1;
                 r2 = (if elapsed \<ge> windowMs L then slide L r1 elapsed else r1);
                 weightedCount = getWeightedCount L r2 now
             in if weightedCount \<ge> maxRequests L
                then (False, L\<lparr>records := (records L)(key \<mapsto> r2)\<rparr>)
                else (True, L\<lparr>records := (records L)(key \<mapsto>
                        r2\<lparr>currCount := currCount r2 + 1\<rparr>)\<rparr>)))"

subsection \<open>getRecord, ban, isBanned, clear\<close>

definition getRecord :: "RateLimiter \<Rightarrow> string \<Rightarrow> window_record option" where
  "getRecord L key = records L key"

definition ban :: "RateLimiter \<Rightarrow> string \<Rightarrow> int \<Rightarrow> int \<Rightarrow> RateLimiter" where
  "ban L key durationMs now =
     (let record = (case records L key of
                      None \<Rightarrow> \<lparr>prevCount = 0, currCount = 0, windowStart = now,
                               bannedUntil = None\<rparr>
                    | Some r \<Rightarrow> r)
      in L\<lparr>records := (records L)(key \<mapsto> record\<lparr>bannedUntil := Some (now + durationMs)\<rparr>)\<rparr>)"

definition isBanned :: "RateLimiter \<Rightarrow> string \<Rightarrow> int \<Rightarrow> bool" where
  "isBanned L key now =
     (case records L key of
        None \<Rightarrow> False
      | Some record \<Rightarrow>
          (case bannedUntil record of
             None \<Rightarrow> False
           | Some t \<Rightarrow> if t = 0 then False else now < t))"

definition clear :: "RateLimiter \<Rightarrow> string \<Rightarrow> RateLimiter" where
  "clear L key = L\<lparr>records := (records L)(key := None)\<rparr>"

subsection \<open>The two limiter instances and the helpers around them\<close>

text \<open>
  The module-level constants \<open>RATE_LIMITER\<close> and \<open>AUTH_FAIL_LIMITER\<close> are the process-wide
  state; \<open>init_gateway now\<close> is that state when the module is loaded at time \<open>now\<close>.
\<close>

record gateway =
  RATE_LIMITER :: RateLimiter
  AUTH_FAIL_LIMITER :: RateLimiter

definition init_gateway :: "int \<Rightarrow> gateway" where
  "init_gateway now =
     \<lparr>RATE_LIMITER = new_RateLimiter 60000 30 now,
      AUTH_FAIL_LIMITER = new_RateLimiter (15 * 60 * 1000) 5 now\<rparr>"

definition AUTH_FAIL_BAN_DURATION :: int where
  "AUTH_FAIL_BAN_DURATION = 30 * 60 * 1000"

definition checkRateLimit :: "gateway \<Rightarrow> string \<Rightarrow> int \<Rightarrow> bool \<times> gateway" where
  "checkRateLimit G ip now =
     (let (allowed, L) = checkAndIncrement (RATE_LIMITER G) ip now
      in (allowed, G\<lparr>RATE_LIMITER := L\<rparr>))"

definition checkAuthFailLimit :: "gateway \<Rightarrow> string \<Rightarrow> int \<Rightarrow> bool" where
  "checkAuthFailLimit G ip now = (\<not> isBanned (AUTH_FAIL_LIMITER G) ip now)"

definition recordAuthFail :: "gateway \<Rightarrow> string \<Rightarrow> int \<Rightarrow> gateway" where
  "recordAuthFail G ip now =
     (let (allowed, L) = checkAndIncrement (AUTH_FAIL_LIMITER G) ip now in
      if \<not> allowed
      then (case getRecord L ip of
              None \<Rightarrow> G\<lparr>AUTH_FAIL_LIMITER := ban L ip AUTH_FAIL_BAN_DURATION now\<rparr>
            | Some record \<Rightarrow>
                if \<not> truthy (bannedUntil record) \<or> banExpired (bannedUntil record) now
                then G\<lparr>AUTH_FAIL_LIMITER := ban L ip AUTH_FAIL_BAN_DURATION now\<rparr>
                else G\<lparr>AUTH_FAIL_LIMITER := L\<rparr>)
      else G\<lparr>AUTH_FAIL_LIMITER := L\<rparr>)"

definition clearAuthFail :: "gateway \<Rightarrow> string \<Rightarrow> gateway" where
  "clearAuthFail G ip = G\<lparr>AUTH_FAIL_LIMITER := clear (AUTH_FAIL_LIMITER G) ip\<rparr>"

subsection \<open>verifyToken\<close>

text \<open>
  A value that is a string, \<open>null\<close> or \<open>undefined\<close> is a \<open>string option\<close>; it is falsy when
  it is absent or the empty string.
\<close>

fun falsy :: "string option \<Rightarrow> bool" where
  "falsy None = True"
| "falsy (Some s) = (s = [])"

text \<open>
  The loop \<open>for (let i = 0; i < a.length; i++) result |= a[i] ^ b[i]\<close> over two byte
  arrays of the same length; bitwise operators work on 32-bit integers.
\<close>

function xor_loop :: "8 word list \<Rightarrow> 8 word list \<Rightarrow> nat \<Rightarrow> 32 word \<Rightarrow> 32 word" where
  "xor_loop a b i result =
     (if i < length a then xor_loop a b (i + 1) (result OR ucast ((a ! i) XOR (b ! i)))
      else result)"
  by pat_completeness auto
termination
  by (relation "measure (\<lambda>(a, b, i, result). length a - i)") auto

declare xor_loop.simps [simp del]

text \<open>
  \<open>verifyToken\<close>. The platform's \<open>TextEncoder.encode\<close> (UTF-8) is the parameter \<open>encode\<close>.
\<close>

definition verifyToken ::
  "(string \<Rightarrow> 8 word list) \<Rightarrow> string option \<Rightarrow> string option \<Rightarrow> bool" where
  "verifyToken encode token envToken =
     (if falsy envToken then False
      else if falsy token then False
      else (case (token, envToken) of
              (Some t, Some e) \<Rightarrow>
                (let a = encode t; b = encode e in
                 if length a \<noteq> length b then False
                 else xor_loop a b 0 0 = 0)
            | _ \<Rightarrow> False))"

text \<open>An encoder for the examples: a string that is already a sequence of bytes.\<close>

definition encode_bytes :: "string \<Rightarrow> 8 word list" where
  "encode_bytes s = map of_char s"

subsection \<open>The request pipeline\<close>

text \<open>
  What \<open>fetch\<close> reads of a request: the path of its URL, the query parameter \<open>token\<close>
  (\<open>null\<close> when absent) and the header \<open>CF-Connecting-IP\<close> (\<open>null\<close> when absent). Of the
  environment it reads \<open>ACCESS_TOKEN\<close> and whether the binding \<open>YAML_STORAGE\<close> is present.
  A request is handled at one instant \<open>now\<close>.
\<close>

record request =
  pathname :: string
  token :: "string option"
  cf_connecting_ip :: "string option"

record env =
  ACCESS_TOKEN :: "string option"
  YAML_STORAGE :: bool

text \<open>
  A terminal response of the admission stages with its status, or \<open>Fulfilment\<close>: the
  request reached step 5, which reads the store and assembles the answer.
\<close>

datatype response = Response nat | Fulfilment

text \<open>\<open>request.headers.get("CF-Connecting-IP") || "unknown"\<close>\<close>

definition clientIP :: "request \<Rightarrow> string" where
  "clientIP req = (if falsy (cf_connecting_ip req) then ''unknown''
                   else (case cf_connecting_ip req of Some s \<Rightarrow> s | None \<Rightarrow> ''unknown''))"

definition fetch ::
  "(string \<Rightarrow> 8 word list) \<Rightarrow> gateway \<Rightarrow> request \<Rightarrow> env \<Rightarrow> int \<Rightarrow> response \<times> gateway" where
  "fetch encode G req e now =
     (let ip = clientIP req;
          (allowed, G1) = checkRateLimit G ip now in
      if \<not> allowed then (Response 429, G1)
      else if \<not> checkAuthFailLimit G1 ip now then (Response 403, G1)
      else if falsy (ACCESS_TOKEN e) \<or> \<not> YAML_STORAGE e then (Response 500, G1)
      else if \<not> verifyToken encode (token req) (ACCESS_TOKEN e)
           then (Response 401, recordAuthFail G1 ip now)
      else (let G2 = clearAuthFail G1 ip in
            if pathname req \<noteq> ''/subscribe'' then (Response 404, G2)
            else (Fulfilment, G2)))"

subsection \<open>Sequences of calls\<close>

text \<open>
  \<open>decisions L key cs\<close>: the calls \<open>cs\<close> (key and time of each) are made in order on the
  limiter \<open>L\<close>; the result lists what the calls for \<open>key\<close> returned.
\<close>

fun decisions :: "RateLimiter \<Rightarrow> string \<Rightarrow> (string \<times> int) list \<Rightarrow> bool list" where
  "decisions L key [] = []"
| "decisions L key ((k, t) # cs) =
     (let (allowed, L') = checkAndIncrement L k t
      in (if k = key then [allowed] else []) @ decisions L' key cs)"

text \<open>\<open>serve\<close>: requests handled in order, each with its environment and time.\<close>

fun serve ::
  "(string \<Rightarrow> 8 word list) \<Rightarrow> gateway \<Rightarrow> (request \<times> env \<times> int) list \<Rightarrow>
     response list \<times> gateway" where
  "serve encode G [] = ([], G)"
| "serve encode G ((req, e, now) # qs) =
     (let (r, G1) = fetch encode G req e now;
          (rs, G2) = serve encode G1 qs
      in (r # rs, G2))"

subsection \<open>The eligibility rule of the data model\<close>

text \<open>
  This definition follows the words of the specification, not the source: a record is
  eligible for garbage collection when it carries an active or expired ban and at least
  one full window has elapsed since \<open>windowStart\<close>, or it carries no ban and at least two
  full windows have elapsed since \<open>windowStart\<close>.
\<close>

definition gc_eligible :: "int \<Rightarrow> int \<Rightarrow> window_record \<Rightarrow> bool" where
  "gc_eligible w now r =
     ((bannedUntil r \<noteq> None \<and> now - windowStart r \<ge> w) \<or>
      (bannedUntil r = None \<and> now - windowStart r \<ge> 2 * w))"

text \<open>\<open>calls L cs\<close>: the limiter after the calls \<open>cs\<close> of \<open>checkAndIncrement\<close>.\<close>

fun calls :: "RateLimiter \<Rightarrow> (string \<times> int) list \<Rightarrow> RateLimiter" where
  "calls L [] = L"
| "calls L ((k, t) # cs) = calls (snd (checkAndIncrement L k t)) cs"



text \<open>
  A limiter for the example of an expired ban: window 15 minutes, limit 5, built at time
  1000; five calls for \<open>''a''\<close> at time 1000, then a ban of 10 minutes at time 1000.
\<close>

definition expired_ban_limiter :: RateLimiter where
  "expired_ban_limiter =
     ban (calls (new_RateLimiter 900000 5 1000)
            [(''a'', 1000), (''a'', 1000), (''a'', 1000), (''a'', 1000), (''a'', 1000)])
       ''a'' 600000 1000"

subsection \<open>Requests of the scenarios\<close>

text \<open>The time at which a request of a sequence is handled.\<close>

definition time_of :: "request \<times> env \<times> int \<Rightarrow> int" where
  "time_of q = snd (snd q)"

text \<open>
  A wrong-token request from the client \<open>key\<close> with a configured environment: both
  bindings are present and \<open>verifyToken\<close> rejects the token.
\<close>

definition wrong_token_from ::
  "(string \<Rightarrow> 8 word list) \<Rightarrow> string \<Rightarrow> request \<times> env \<times> int \<Rightarrow> bool" where
  "wrong_token_from encode key q =
     (case q of (req, e, t) \<Rightarrow>
        clientIP req = key \<and> \<not> falsy (ACCESS_TOKEN e) \<and> YAML_STORAGE e \<and>
        \<not> verifyToken encode (token req) (ACCESS_TOKEN e))"

text \<open>The requests of a sequence that come from the client \<open>key\<close>.\<close>

definition from_client :: "string \<Rightarrow> request \<times> env \<times> int \<Rightarrow> bool" where
  "from_client key q = (clientIP (fst q) = key)"

text \<open>
  \<open>trace\<close>: the requests handled in order, as \<open>serve\<close> does, each listed with the state
  it meets and the response it gets.
\<close>

fun trace ::
  "(string \<Rightarrow> 8 word list) \<Rightarrow> gateway \<Rightarrow> (request \<times> env \<times> int) list \<Rightarrow>
     (gateway \<times> (request \<times> env \<times> int) \<times> response) list" where
  "trace encode G [] = []"
| "trace encode G ((req, e, now) # qs) =
     (G, (req, e, now), fst (fetch encode G req e now)) #
     trace encode (snd (fetch encode G req e now)) qs"

text \<open>An environment with the secret \<open>''secret''\<close>, and requests for the examples.\<close>

definition configured :: env where
  "configured = \<lparr>ACCESS_TOKEN = Some ''secret'', YAML_STORAGE = True\<rparr>"

definition guess :: "string \<Rightarrow> int \<Rightarrow> request \<times> env \<times> int" where
  "guess ip t =
     (\<lparr>pathname = ''/subscribe'', token = Some ''guess'', cf_connecting_ip = Some ip\<rparr>,
      configured, t)"

definition six_guesses :: "(request \<times> env \<times> int) list" where
  "six_guesses =
     [guess ''10.0.0.1'' 1000, guess ''10.0.0.1'' 2000, guess ''10.0.0.1'' 3000,
      guess ''10.0.0.1'' 4000, guess ''10.0.0.1'' 5000, guess ''10.0.0.1'' 6000]"

text \<open>Six guesses of one client with requests of another client in between.\<close>

definition mixed_guesses :: "(request \<times> env \<times> int) list" where
  "mixed_guesses =
     [guess ''10.0.0.1'' 1000, guess ''10.0.0.2'' 1500, guess ''10.0.0.1'' 2000,
      guess ''10.0.0.1'' 3000, guess ''10.0.0.2'' 3500, guess ''10.0.0.1'' 4000,
      guess ''10.0.0.1'' 5000, guess ''10.0.0.1'' 6000]"

definition later_guesses :: "(request \<times> env \<times> int) list" where
  "later_guesses =
     [guess ''10.0.0.1'' 7000, guess ''10.0.0.2'' 8000, guess ''10.0.0.1'' 9000]"

definition four_guesses :: "(request \<times> env \<times> int) list" where
  "four_guesses =
     [guess ''10.0.0.1'' 1000, guess ''10.0.0.1'' 2000, guess ''10.0.0.1'' 3000,
      guess ''10.0.0.1'' 4000]"

text \<open>A request with the right token, for a given path.\<close>

definition knock :: "string \<Rightarrow> string \<Rightarrow> request" where
  "knock ip path = \<lparr>pathname = path, token = Some ''secret'', cf_connecting_ip = Some ip\<rparr>"

text \<open>Requests without the header \<open>CF-Connecting-IP\<close>, one every second.\<close>

definition headerless :: "int \<Rightarrow> request \<times> env \<times> int" where
  "headerless t =
     (\<lparr>pathname = ''/subscribe'', token = None, cf_connecting_ip = None\<rparr>, configured, t)"

definition burst :: "(request \<times> env \<times> int) list" where
  "burst = map (\<lambda>n. headerless (1000 * int n)) [0..<31]"

section \<open>Properties\<close>

subsection \<open>The sweep and one call\<close>

lemma cleanup_config [simp]:
  "windowMs (cleanup L now) = windowMs L"
  "maxRequests (cleanup L now) = maxRequests L"
  "cleanupInterval (cleanup L now) = cleanupInterval L"
  by (simp_all add: cleanup_def)

lemma cleanup_records:
  "records (cleanup L now) key =
     (case records L key of
        None \<Rightarrow> None
      | Some r \<Rightarrow> if now - lastCleanup L \<ge> cleanupInterval L \<and> isExpired L now r
                  then None else Some r)"
  by (simp add: cleanup_def split: option.splits)

lemma cleanup_None: "records L key = None \<Longrightarrow> records (cleanup L now) key = None"
  by (simp add: cleanup_records)

lemma cleanup_keeps:
  "records L key = Some r \<Longrightarrow> \<not> isExpired L now r \<Longrightarrow> records (cleanup L now) key = Some r"
  by (simp add: cleanup_records)

lemma checkAndIncrement_config [simp]:
  "windowMs (snd (checkAndIncrement L key now)) = windowMs L"
  "maxRequests (snd (checkAndIncrement L key now)) = maxRequests L"
  "cleanupInterval (snd (checkAndIncrement L key now)) = cleanupInterval L"
  by (simp_all add: checkAndIncrement_def Let_def split: option.splits)

lemma checkAndIncrement_other:
  "k \<noteq> key \<Longrightarrow> records (snd (checkAndIncrement L k now)) key = records (cleanup L now) key"
  by (simp add: checkAndIncrement_def Let_def split: option.splits)

lemma checkAndIncrement_new:
  "records (cleanup L now) key = None \<Longrightarrow>
   fst (checkAndIncrement L key now) \<and>
   records (snd (checkAndIncrement L key now)) key =
     Some \<lparr>prevCount = 0, currCount = 1, windowStart = now, bannedUntil = None\<rparr>"
  by (simp add: checkAndIncrement_def Let_def)

lemma round_double_of_int [simp]: "round_double (of_int n) = of_int n"
  by (simp add: round_double_def)

lemma round_double_numeral [simp]:
  "round_double 0 = 0" "round_double 1 = 1" "round_double (numeral k) = numeral k"
  by (simp_all add: round_double_def)


lemma getWeightedCount_prev0:
  "prevCount r = 0 \<Longrightarrow> now - windowStart r < windowMs L \<Longrightarrow>
   getWeightedCount L r now = currCount r"
  by (simp add: getWeightedCount_def Let_def fl_mul_def fl_add_def)

lemma checkAndIncrement_window:
  assumes "records (cleanup L now) key = Some r" "bannedUntil r = None" "prevCount r = 0"
    "now - windowStart r < windowMs L"
  shows "fst (checkAndIncrement L key now) = (currCount r < maxRequests L)"
    and "records (snd (checkAndIncrement L key now)) key =
          Some (if currCount r < maxRequests L then r\<lparr>currCount := currCount r + 1\<rparr> else r)"
  using assms by (simp_all add: checkAndIncrement_def Let_def getWeightedCount_prev0)


lemma isExpired_in_window:
  "bannedUntil r = None \<Longrightarrow> 0 < windowMs L \<Longrightarrow> now - windowStart r < windowMs L \<Longrightarrow>
   \<not> isExpired L now r"
  by (simp add: isExpired_def)

lemma decisions_window:
  assumes "0 < windowMs L"
    and "records L key = Some \<lparr>prevCount = 0, currCount = c, windowStart = t0, bannedUntil = None\<rparr>"
    and "\<forall>(k, t) \<in> set cs. t - t0 < windowMs L"
  shows "decisions L key cs =
           map (\<lambda>i. c + int i < maxRequests L) [0..<length (filter (\<lambda>(k, t). k = key) cs)]"
  using assms
proof (induction cs arbitrary: L c)
  case Nil
  then show ?case by simp
next
  case (Cons call cs)
  obtain k t where call: "call = (k, t)" by (cases call)
  let ?r = "\<lparr>prevCount = 0, currCount = c, windowStart = t0, bannedUntil = None\<rparr>"
  let ?L' = "snd (checkAndIncrement L k t)"
  have t: "t - t0 < windowMs L" using Cons.prems(3) call by simp
  have rest: "\<forall>(k, t) \<in> set cs. t - t0 < windowMs ?L'" using Cons.prems(3) by simp
  have w': "0 < windowMs ?L'" using Cons.prems(1) by simp
  have kept: "records (cleanup L t) key = Some ?r"
    using Cons.prems(1,2) t by (intro cleanup_keeps isExpired_in_window) simp_all
  show ?case
  proof (cases "k = key")
    case False
    have "records ?L' key = Some ?r"
      using False kept by (simp add: checkAndIncrement_other)
    from Cons.IH [OF w' this rest] False call show ?thesis
      by (simp add: split_beta)
  next
    case True
    let ?c' = "if c < maxRequests L then c + 1 else c"
    have dec: "fst (checkAndIncrement L key t) = (c < maxRequests L)"
      using checkAndIncrement_window(1) [OF kept] t by simp
    have "records (snd (checkAndIncrement L key t)) key =
            Some \<lparr>prevCount = 0, currCount = ?c', windowStart = t0, bannedUntil = None\<rparr>"
      using checkAndIncrement_window(2) [OF kept] t by simp
    with True have "records ?L' key =
            Some \<lparr>prevCount = 0, currCount = ?c', windowStart = t0, bannedUntil = None\<rparr>"
      by simp
    from Cons.IH [OF w' this rest]
    have "decisions ?L' key cs =
            map (\<lambda>i. ?c' + int i < maxRequests L) [0..<length (filter (\<lambda>(k, t). k = key) cs)]"
      by simp
    also have "\<dots> = map (\<lambda>i. c + int (Suc i) < maxRequests L)
                       [0..<length (filter (\<lambda>(k, t). k = key) cs)]"
      by (rule map_cong) auto
    finally have tl: "decisions ?L' key cs =
        map (\<lambda>i. c + int (Suc i) < maxRequests L) [0..<length (filter (\<lambda>(k, t). k = key) cs)]" .
    have len: "length (filter (\<lambda>(k, t). k = key) (call # cs)) =
                 Suc (length (filter (\<lambda>(k, t). k = key) cs))"
      using True call by simp
    have hd: "decisions L key (call # cs) = (c < maxRequests L) # decisions ?L' key cs"
      using True call dec by (simp add: split_beta)
    show ?thesis
      unfolding len hd tl map_upt_Suc by simp
  qed
qed

lemma decisions_fresh:
  assumes "records L key = None"
    and "\<forall>(k, t) \<in> set ((key, t0) # cs). t - t0 < windowMs L"
  shows "decisions L key ((key, t0) # cs) =
           True # map (\<lambda>i. 1 + int i < maxRequests L)
                    [0..<length (filter (\<lambda>(k, t). k = key) cs)]"
proof -
  let ?L' = "snd (checkAndIncrement L key t0)"
  have w: "0 < windowMs ?L'" using assms(2) by simp
  have new: "records (cleanup L t0) key = None" using assms(1) by (rule cleanup_None)
  have rest: "\<forall>(k, t) \<in> set cs. t - t0 < windowMs ?L'" using assms(2) by simp
  from decisions_window [OF w conjunct2 [OF checkAndIncrement_new [OF new]] rest]
    conjunct1 [OF checkAndIncrement_new [OF new]]
  show ?thesis by (simp add: split_beta)
qed

subsection \<open>The token comparison\<close>

lemma xor_zero_iff: "((x::8 word) XOR y = 0) = (x = y)"
  by (metis bit.xor_left_self xor.right_neutral)

lemma ucast_zero_iff: "((ucast (y::8 word) :: 32 word) = 0) = (y = 0)"
  by transfer (simp add: take_bit_eq_mod)

lemma xor_loop_zero:
  "(xor_loop a b i r = 0) = (r = 0 \<and> (\<forall>j. i \<le> j \<and> j < length a \<longrightarrow> a ! j = b ! j))"
proof (induction a b i r rule: xor_loop.induct)
  case (1 a b i r)
  show ?case
  proof (cases "i < length a")
    case False
    then show ?thesis by (subst xor_loop.simps) auto
  next
    case True
    have split: "(\<forall>j. i \<le> j \<and> j < length a \<longrightarrow> a ! j = b ! j) =
                 (a ! i = b ! i \<and> (\<forall>j. i + 1 \<le> j \<and> j < length a \<longrightarrow> a ! j = b ! j))"
      (is "?A = ?B")
    proof
      assume A: ?A
      have "a ! i = b ! i" using A True by simp
      moreover have "\<forall>j. i + 1 \<le> j \<and> j < length a \<longrightarrow> a ! j = b ! j"
        using A by simp
      ultimately show ?B by simp
    next
      assume B: ?B
      show ?A
      proof (intro allI impI)
        fix j assume j: "i \<le> j \<and> j < length a"
        show "a ! j = b ! j"
        proof (cases "j = i")
          case True
          then show ?thesis using B by simp
        next
          case False
          then have "i + 1 \<le> j" using j by simp
          then show ?thesis using B j by simp
        qed
      qed
    qed
    have "(xor_loop a b i r = 0) =
          (xor_loop a b (i + 1) (r OR ucast ((a ! i) XOR (b ! i))) = 0)"
      using True by (subst xor_loop.simps) simp
    also have "\<dots> = (r OR ucast ((a ! i) XOR (b ! i)) = 0 \<and>
                      (\<forall>j. i + 1 \<le> j \<and> j < length a \<longrightarrow> a ! j = b ! j))"
      using "1.IH" [OF True] .
    also have "\<dots> = (r = 0 \<and> a ! i = b ! i \<and>
                      (\<forall>j. i + 1 \<le> j \<and> j < length a \<longrightarrow> a ! j = b ! j))"
      by (simp only: or_eq_0_iff ucast_zero_iff xor_zero_iff conj_assoc)
    also have "\<dots> = (r = 0 \<and> (\<forall>j. i \<le> j \<and> j < length a \<longrightarrow> a ! j = b ! j))"
      by (simp only: split)
    finally show ?thesis .
  qed
qed

lemma xor_loop_equal:
  assumes "length a = length b"
  shows "(xor_loop a b 0 0 = 0) = (a = b)"
proof -
  have "(xor_loop a b 0 0 = 0) = (\<forall>j < length a. a ! j = b ! j)"
    unfolding xor_loop_zero by simp
  also have "\<dots> = (a = b)"
    using assms unfolding list_eq_iff_nth_eq by simp
  finally show ?thesis .
qed

lemma verifyToken_iff:
  "verifyToken encode tok envTok =
     (case (tok, envTok) of
        (Some t, Some e) \<Rightarrow> t \<noteq> [] \<and> e \<noteq> [] \<and> encode t = encode e
      | _ \<Rightarrow> False)"
proof (cases tok)
  case None
  then show ?thesis by (cases envTok) (simp_all add: verifyToken_def)
next
  case (Some t)
  show ?thesis
  proof (cases envTok)
    case None
    with Some show ?thesis by (simp add: verifyToken_def)
  next
    case (Some e)
    show ?thesis
    proof (cases "length (encode t) = length (encode e)")
      case True
      with \<open>tok = Some t\<close> Some show ?thesis
        by (cases t; cases e) (simp_all add: verifyToken_def Let_def xor_loop_equal)
    next
      case False
      then have "encode t \<noteq> encode e" by auto
      with False \<open>tok = Some t\<close> Some show ?thesis
        by (simp add: verifyToken_def Let_def)
    qed
  qed
qed

subsection \<open>Calls within one window\<close>

lemma first_max_list:
  assumes "1 \<le> (m::int)"
  shows "True # map (\<lambda>i. 1 + int i < m) [0..<nat m] = replicate (nat m) True @ [False]"
proof (rule nth_equalityI)
  show "length (True # map (\<lambda>i. 1 + int i < m) [0..<nat m]) =
        length (replicate (nat m) True @ [False])" by simp
next
  fix i assume "i < length (True # map (\<lambda>i. 1 + int i < m) [0..<nat m])"
  then have i: "i < Suc (nat m)" by simp
  show "(True # map (\<lambda>i. 1 + int i < m) [0..<nat m]) ! i =
        (replicate (nat m) True @ [False]) ! i"
  proof (cases i)
    case 0
    then show ?thesis using assms by (simp add: nth_append)
  next
    case (Suc j)
    then have "j < nat m" using i by simp
    then show ?thesis using Suc assms by (auto simp: nth_append)
  qed
qed

text \<open>
  Claim C1, as amended. A limiter with window \<open>windowMs\<close> and limit \<open>maxRequests \<ge> 1\<close>
  holds no record for \<open>key\<close>. Calls are made in order, the first of them for \<open>key\<close> at
  time \<open>t0\<close>, each of them less than \<open>windowMs\<close> after \<open>t0\<close>, and \<open>maxRequests + 1\<close> of
  them for \<open>key\<close> (calls for other keys may come in between). Then the first
  \<open>maxRequests\<close> calls for \<open>key\<close> are allowed and the next one is denied: it meets a
  weighted count that already equals \<open>maxRequests\<close>.
\<close>

theorem window_allows_first_max:
  assumes "records L key = None"
    and "1 \<le> maxRequests L"
    and "\<forall>(k, t) \<in> set ((key, t0) # cs). t - t0 < windowMs L"
    and "length (filter (\<lambda>(k, t). k = key) cs) = nat (maxRequests L)"
  shows "decisions L key ((key, t0) # cs) = replicate (nat (maxRequests L)) True @ [False]"
  using decisions_fresh [OF assms(1,3)] first_max_list [OF assms(2)] assms(4) by simp

text \<open>
  A run of the theorem: limit 2, window 1000 ms, three calls for \<open>''a''\<close> and one for
  \<open>''b''\<close> in between.
\<close>

theorem window_allows_first_max_witness:
  "records (new_RateLimiter 1000 2 0) ''a'' = None \<and>
   1 \<le> maxRequests (new_RateLimiter 1000 2 0) \<and>
   decisions (new_RateLimiter 1000 2 0) ''a''
     [(''a'', 10), (''b'', 20), (''a'', 30), (''a'', 500)] = [True, True, False]"
  using window_allows_first_max [of "new_RateLimiter 1000 2 0" "''a''" 10
      "[(''b'', 20), (''a'', 30), (''a'', 500)]"]
  by (simp add: new_RateLimiter_def eval_nat_numeral del: decisions.simps)

text \<open>
  Claim C1 as stated fails for the limit 0: the first call for a key without a record is
  allowed before any count is compared, although it is the \<open>(maxRequests + 1)\<close>-th call.
\<close>

theorem limit_zero_first_call_allowed:
  "maxRequests (new_RateLimiter 1000 0 0) = 0 \<and>
   records (new_RateLimiter 1000 0 0) ''a'' = None \<and>
   10 - 10 < windowMs (new_RateLimiter 1000 0 0) \<and>
   decisions (new_RateLimiter 1000 0 0) ''a'' [(''a'', 10)] = [True] \<and>
   replicate (nat (maxRequests (new_RateLimiter 1000 0 0))) True @ [False] = [False]"
  by (simp add: new_RateLimiter_def checkAndIncrement_def cleanup_def)

text \<open>
  Claim C6. \<open>verifyToken\<close> returns true exactly when both the token and the secret are
  present and non-empty and their encodings are the same sequence of bytes. So it returns
  false when either side is absent or empty, when the byte lengths differ, and when any
  single byte differs.
\<close>

theorem verifyToken_correct:
  "verifyToken encode tok envTok =
     (\<exists>t e. tok = Some t \<and> envTok = Some e \<and> t \<noteq> [] \<and> e \<noteq> [] \<and> encode t = encode e)"
  by (cases tok; cases envTok) (simp_all add: verifyToken_iff)

subsection \<open>Bans and the sweep\<close>

lemma isExpired_banned:
  "bannedUntil r = Some b \<Longrightarrow> now < b \<Longrightarrow> 0 \<le> now \<Longrightarrow> \<not> isExpired L now r"
  by (simp add: isExpired_def)

lemma checkAndIncrement_banned:
  assumes "records L key = Some r" and "bannedUntil r = Some b" and "now < b" and "0 \<le> now"
  shows "fst (checkAndIncrement L key now) = False"
    and "records (snd (checkAndIncrement L key now)) key = Some r"
proof -
  have "records (cleanup L now) key = Some r"
    using assms by (intro cleanup_keeps isExpired_banned)
  then show "fst (checkAndIncrement L key now) = False"
    and "records (snd (checkAndIncrement L key now)) key = Some r"
    using assms by (simp_all add: checkAndIncrement_def Let_def)
qed

text \<open>
  Claim C4. The record of \<open>key\<close> has \<open>bannedUntil\<close> set to \<open>b\<close> and \<open>now < b\<close> (the clock
  \<open>now\<close> is a time since the epoch, so it is not negative). Then \<open>checkAndIncrement\<close>
  returns denied and the record of \<open>key\<close> afterwards is the record before: \<open>prevCount\<close>,
  \<open>currCount\<close>, \<open>windowStart\<close> and \<open>bannedUntil\<close> are unchanged.
\<close>

theorem banned_call_denied:
  assumes "records L key = Some r" and "bannedUntil r = Some b" and "now < b" and "0 \<le> now"
  shows "fst (checkAndIncrement L key now) = False \<and>
         records (snd (checkAndIncrement L key now)) key = Some r"
  using checkAndIncrement_banned [OF assms] by simp

text \<open>A run of the theorem: a key banned at time 0 for 2000 ms is checked at time 500.\<close>

theorem banned_call_denied_witness:
  "0 \<le> (500::int) \<and> (500::int) < 2000 \<and>
   fst (checkAndIncrement (ban (new_RateLimiter 1000 5 0) ''a'' 2000 0) ''a'' 500) = False \<and>
   records (snd (checkAndIncrement (ban (new_RateLimiter 1000 5 0) ''a'' 2000 0) ''a'' 500)) ''a'' =
     Some \<lparr>prevCount = 0, currCount = 0, windowStart = 0, bannedUntil = Some 2000\<rparr>"
  using banned_call_denied [of "ban (new_RateLimiter 1000 5 0) ''a'' 2000 0" "''a''"
      "\<lparr>prevCount = 0, currCount = 0, windowStart = 0, bannedUntil = Some 2000\<rparr>" 2000 500]
  by (simp add: ban_def new_RateLimiter_def)

lemma isExpired_eligible:
  "0 \<le> windowMs L \<Longrightarrow> isExpired L now r \<Longrightarrow> gc_eligible (windowMs L) now r"
  by (cases "bannedUntil r") (auto simp: isExpired_def gc_eligible_def split: if_splits)

text \<open>
  Claim C8. The sweep deletes a record only when the record meets the eligibility rule
  (a ban, active or expired, and one full window since \<open>windowStart\<close>; or no ban and two
  full windows since \<open>windowStart\<close>); a record that does not meet the rule survives the
  sweep unchanged, and a record that survives is unchanged. The window size is not
  negative.
\<close>

theorem sweep_deletes_only_eligible:
  assumes "0 \<le> windowMs L" and "records L key = Some r"
  shows "(records (cleanup L now) key = None \<longrightarrow> gc_eligible (windowMs L) now r) \<and>
         (records (cleanup L now) key \<noteq> None \<longrightarrow> records (cleanup L now) key = Some r) \<and>
         (\<not> gc_eligible (windowMs L) now r \<longrightarrow> records (cleanup L now) key = Some r)"
  using assms isExpired_eligible [of L now r]
  by (auto simp: cleanup_records split: if_splits)

text \<open>
  A run of the theorem: a record created at time 0 is swept at time 400000, and a record
  created at time 300000 survives the sweep at time 300500 (window 1000 ms).
\<close>

theorem sweep_deletes_only_eligible_witness:
  "0 \<le> windowMs (snd (checkAndIncrement (new_RateLimiter 1000 5 0) ''a'' 0)) \<and>
   records (snd (checkAndIncrement (new_RateLimiter 1000 5 0) ''a'' 0)) ''a'' =
     Some \<lparr>prevCount = 0, currCount = 1, windowStart = 0, bannedUntil = None\<rparr> \<and>
   records (cleanup (snd (checkAndIncrement (new_RateLimiter 1000 5 0) ''a'' 0)) 400000) ''a'' = None \<and>
   gc_eligible 1000 400000 \<lparr>prevCount = 0, currCount = 1, windowStart = 0, bannedUntil = None\<rparr> \<and>
   \<not> gc_eligible 1000 300500 \<lparr>prevCount = 0, currCount = 1, windowStart = 300000, bannedUntil = None\<rparr> \<and>
   records (cleanup (snd (checkAndIncrement (new_RateLimiter 1000 5 0) ''b'' 300000)) 300500) ''b'' =
     Some \<lparr>prevCount = 0, currCount = 1, windowStart = 300000, bannedUntil = None\<rparr>"
  using sweep_deletes_only_eligible [of "snd (checkAndIncrement (new_RateLimiter 1000 5 0) ''a'' 0)"
      "''a''" "\<lparr>prevCount = 0, currCount = 1, windowStart = 0, bannedUntil = None\<rparr>" 400000]
    sweep_deletes_only_eligible [of "snd (checkAndIncrement (new_RateLimiter 1000 5 0) ''b'' 300000)"
      "''b''" "\<lparr>prevCount = 0, currCount = 1, windowStart = 300000, bannedUntil = None\<rparr>" 300500]
  by (simp add: new_RateLimiter_def checkAndIncrement_def cleanup_def isExpired_def gc_eligible_def)

subsection \<open>Sliding the window\<close>


lemma slide_cleanup [simp]: "slide (cleanup L t) r e = slide L r e"
  by (simp add: slide_def Let_def)

lemma getWeightedCount_cleanup [simp]:
  "getWeightedCount (cleanup L t) r now = getWeightedCount L r now"
  by (simp add: getWeightedCount_def Let_def)

lemma checkAndIncrement_found:
  assumes "records (cleanup L now) key = Some r" and "\<not> banActive (bannedUntil r) now"
  shows "checkAndIncrement L key now =
     (let r1 = (if banExpired (bannedUntil r) now then r\<lparr>bannedUntil := None\<rparr> else r);
          r2 = (if now - windowStart r1 \<ge> windowMs L then slide L r1 (now - windowStart r1)
                else r1)
      in if getWeightedCount L r2 now \<ge> maxRequests L
         then (False, (cleanup L now)\<lparr>records := (records (cleanup L now))(key \<mapsto> r2)\<rparr>)
         else (True, (cleanup L now)\<lparr>records := (records (cleanup L now))(key \<mapsto>
                 r2\<lparr>currCount := currCount r2 + 1\<rparr>)\<rparr>))"
  using assms by (simp add: checkAndIncrement_def Let_def)









subsection \<open>The life of a ban\<close>

lemma ban_records:
  "records (ban L key d now) =
     (records L)(key \<mapsto>
        (case records L key of
           None \<Rightarrow> \<lparr>prevCount = 0, currCount = 0, windowStart = now, bannedUntil = None\<rparr>
         | Some r \<Rightarrow> r)\<lparr>bannedUntil := Some (now + d)\<rparr>)"
  by (simp add: ban_def Let_def)

lemma ban_config [simp]:
  "windowMs (ban L key d now) = windowMs L"
  "maxRequests (ban L key d now) = maxRequests L"
  "cleanupInterval (ban L key d now) = cleanupInterval L"
  "lastCleanup (ban L key d now) = lastCleanup L"
  by (simp_all add: ban_def Let_def)

lemma isBanned_iff:
  "isBanned L key now = (\<exists>r. records L key = Some r \<and> banActive (bannedUntil r) now)"
  by (cases "records L key") (auto simp: isBanned_def split: option.splits)

lemma calls_banned:
  assumes "records L key = Some r" and "bannedUntil r = Some b"
    and "\<forall>(k, t) \<in> set cs. 0 \<le> t \<and> t < b"
  shows "records (calls L cs) key = Some r"
  using assms
proof (induction cs arbitrary: L)
  case Nil
  then show ?case by simp
next
  case (Cons call cs)
  obtain k t where call: "call = (k, t)" by (cases call)
  have t: "0 \<le> t" "t < b" using Cons.prems(3) call by simp_all
  have "records (snd (checkAndIncrement L k t)) key = Some r"
  proof (cases "k = key")
    case True
    then show ?thesis
      using checkAndIncrement_banned(2) [OF Cons.prems(1,2) t(2,1)] by simp
  next
    case False
    have "records (cleanup L t) key = Some r"
      using Cons.prems(1,2) t by (intro cleanup_keeps isExpired_banned)
    then show ?thesis using False by (simp add: checkAndIncrement_other)
  qed
  from Cons.IH [OF this Cons.prems(2)] Cons.prems(3) call show ?case by simp
qed

lemma cleanup_same_at_key:
  assumes "records (cleanup L now) key = Some r" and "records (cleanup L' now) key = Some r'"
    and "L' = L\<lparr>records := (records L)(key \<mapsto> r0)\<rparr>"
  shows "(cleanup L' now)\<lparr>records := (records (cleanup L' now))(key \<mapsto> x)\<rparr> =
         (cleanup L now)\<lparr>records := (records (cleanup L now))(key \<mapsto> x)\<rparr>"
proof -
  have "(records (cleanup L' now))(key \<mapsto> x) = (records (cleanup L now))(key \<mapsto> x)"
    by (rule ext) (simp add: cleanup_records assms(3) isExpired_def split: option.splits)
  moreover have "lastCleanup (cleanup L' now) = lastCleanup (cleanup L now)"
    by (simp add: cleanup_def assms(3))
  ultimately show ?thesis
    by (simp add: cleanup_def assms(3))
qed


lemma checkAndIncrement_fresh_after_sweep:
  assumes "records L key = Some r" and "banExpired (bannedUntil r) now"
    and "cleanupInterval L \<le> now - lastCleanup L" and "windowMs L \<le> now - windowStart r"
  shows "fst (checkAndIncrement L key now)"
    and "records (snd (checkAndIncrement L key now)) key =
           Some \<lparr>prevCount = 0, currCount = 1, windowStart = now, bannedUntil = None\<rparr>"
proof -
  have "truthy (bannedUntil r)" using assms(2) by (cases "bannedUntil r") simp_all
  then have "isExpired L now r" using assms(2,4) by (simp add: isExpired_def)
  then have "records (cleanup L now) key = None"
    using assms(1,3) by (simp add: cleanup_records)
  from checkAndIncrement_new [OF this]
  show "fst (checkAndIncrement L key now)"
    and "records (snd (checkAndIncrement L key now)) key =
           Some \<lparr>prevCount = 0, currCount = 1, windowStart = now, bannedUntil = None\<rparr>"
    by simp_all
qed

lemma checkAndIncrement_expired_ban:
  assumes w: "0 \<le> windowMs L" and rec: "records L key = Some r"
    and ex: "banExpired (bannedUntil r) now"
    and keep: "\<not> (cleanupInterval L \<le> now - lastCleanup L \<and> windowMs L \<le> now - windowStart r)"
  shows "checkAndIncrement L key now =
           checkAndIncrement (L\<lparr>records := (records L)(key \<mapsto> r\<lparr>bannedUntil := None\<rparr>)\<rparr>) key now"
    and "\<exists>r'. records (snd (checkAndIncrement L key now)) key = Some r' \<and> bannedUntil r' = None"
proof -
  let ?r0 = "r\<lparr>bannedUntil := None\<rparr>"
  let ?L' = "L\<lparr>records := (records L)(key \<mapsto> ?r0)\<rparr>"
  have tr: "truthy (bannedUntil r)" using ex by (cases "bannedUntil r") simp_all
  have nact: "\<not> banActive (bannedUntil r) now" using ex by (cases "bannedUntil r") simp_all
  have f: "records (cleanup L now) key = Some r"
    using rec keep tr by (auto simp: cleanup_records isExpired_def)
  have f': "records (cleanup ?L' now) key = Some ?r0"
    using keep w by (auto simp: cleanup_records isExpired_def)
  have nact': "\<not> banActive (bannedUntil ?r0) now" by simp
  have cfg: "windowMs ?L' = windowMs L" "maxRequests ?L' = maxRequests L" by simp_all
  have sl: "slide ?L' = slide L" by (intro ext) (simp add: slide_def Let_def)
  have gw: "getWeightedCount ?L' = getWeightedCount L"
    by (intro ext) (simp add: getWeightedCount_def Let_def)
  note same = cleanup_same_at_key [OF f f' refl]
  show "checkAndIncrement L key now = checkAndIncrement ?L' key now"
    unfolding checkAndIncrement_found [OF f nact] checkAndIncrement_found [OF f' nact']
    using ex by (simp add: Let_def sl gw same)
  show "\<exists>r'. records (snd (checkAndIncrement L key now)) key = Some r' \<and> bannedUntil r' = None"
    unfolding checkAndIncrement_found [OF f nact]
    using ex by (simp add: Let_def slide_def)
qed

text \<open>
  Claim C5, as amended. (1) For a ban duration \<open>d > 0\<close>, \<open>ban key d\<close> at time \<open>now\<close> makes
  \<open>isBanned key\<close> true at once and until \<open>now + d\<close>; it creates a zero-count record if none
  existed and leaves the counters of an existing record as they are. (2) While the ban is
  active, no call of \<open>checkAndIncrement\<close>, for this key or another, changes the record.
  (3) Once the ban has expired, the next \<open>checkAndIncrement\<close> for the key, when its sweep
  does not delete the record (the sweep is not due, or less than one window has passed
  since \<open>windowStart\<close>), clears \<open>bannedUntil\<close> and decides exactly as it would on the same
  record without a ban. (4) When the sweep is due and one window has passed since
  \<open>windowStart\<close>, the sweep deletes the record instead: the call is allowed and leaves a
  fresh record with count 1.
\<close>

theorem ban_then_expiry:
  "(0 \<le> now \<and> 0 < d \<and> now \<le> now' \<and> now' < now + d \<longrightarrow>
      isBanned (ban L key d now) key now' \<and>
      getRecord (ban L key d now) key =
        Some ((case records L key of
                 None \<Rightarrow> \<lparr>prevCount = 0, currCount = 0, windowStart = now, bannedUntil = None\<rparr>
               | Some r0 \<Rightarrow> r0)\<lparr>bannedUntil := Some (now + d)\<rparr>)) \<and>
   (records L key = Some r \<and> bannedUntil r = Some b \<and> (\<forall>(k, t) \<in> set cs. 0 \<le> t \<and> t < b) \<longrightarrow>
      records (calls L cs) key = Some r) \<and>
   (0 \<le> windowMs L \<and> records L key = Some r \<and> banExpired (bannedUntil r) now \<and>
    \<not> (cleanupInterval L \<le> now - lastCleanup L \<and> windowMs L \<le> now - windowStart r) \<longrightarrow>
      checkAndIncrement L key now =
        checkAndIncrement (L\<lparr>records := (records L)(key \<mapsto> r\<lparr>bannedUntil := None\<rparr>)\<rparr>) key now \<and>
      (\<exists>r'. records (snd (checkAndIncrement L key now)) key = Some r' \<and> bannedUntil r' = None)) \<and>
   (records L key = Some r \<and> banExpired (bannedUntil r) now \<and>
    cleanupInterval L \<le> now - lastCleanup L \<and> windowMs L \<le> now - windowStart r \<longrightarrow>
      fst (checkAndIncrement L key now) \<and>
      records (snd (checkAndIncrement L key now)) key =
        Some \<lparr>prevCount = 0, currCount = 1, windowStart = now, bannedUntil = None\<rparr>)"
proof (intro conjI impI)
  assume "0 \<le> now \<and> 0 < d \<and> now \<le> now' \<and> now' < now + d"
  then show "isBanned (ban L key d now) key now'"
    by (simp add: isBanned_iff ban_records)
next
  show "getRecord (ban L key d now) key =
        Some ((case records L key of
                 None \<Rightarrow> \<lparr>prevCount = 0, currCount = 0, windowStart = now, bannedUntil = None\<rparr>
               | Some r0 \<Rightarrow> r0)\<lparr>bannedUntil := Some (now + d)\<rparr>)"
    by (simp add: getRecord_def ban_records)
next
  assume "records L key = Some r \<and> bannedUntil r = Some b \<and> (\<forall>(k, t) \<in> set cs. 0 \<le> t \<and> t < b)"
  then show "records (calls L cs) key = Some r"
    using calls_banned [of L key r b cs] by simp
next
  assume a: "0 \<le> windowMs L \<and> records L key = Some r \<and> banExpired (bannedUntil r) now \<and>
    \<not> (cleanupInterval L \<le> now - lastCleanup L \<and> windowMs L \<le> now - windowStart r)"
  then show "checkAndIncrement L key now =
        checkAndIncrement (L\<lparr>records := (records L)(key \<mapsto> r\<lparr>bannedUntil := None\<rparr>)\<rparr>) key now"
    using checkAndIncrement_expired_ban(1) [of L key r now] by blast
  from a show "\<exists>r'. records (snd (checkAndIncrement L key now)) key = Some r' \<and> bannedUntil r' = None"
    using checkAndIncrement_expired_ban(2) [of L key r now] by blast
next
  assume a: "records L key = Some r \<and> banExpired (bannedUntil r) now \<and>
    cleanupInterval L \<le> now - lastCleanup L \<and> windowMs L \<le> now - windowStart r"
  then show "fst (checkAndIncrement L key now)"
    using checkAndIncrement_fresh_after_sweep(1) [of L key r now] by blast
  from a show "records (snd (checkAndIncrement L key now)) key =
        Some \<lparr>prevCount = 0, currCount = 1, windowStart = now, bannedUntil = None\<rparr>"
    using checkAndIncrement_fresh_after_sweep(2) [of L key r now] by blast
qed

lemma expired_ban_limiter_fields:
  "records expired_ban_limiter ''a'' =
     Some \<lparr>prevCount = 0, currCount = 5, windowStart = 1000, bannedUntil = Some 601000\<rparr>"
  "windowMs expired_ban_limiter = 900000"
  "maxRequests expired_ban_limiter = 5"
  "lastCleanup expired_ban_limiter = 1000"
  "cleanupInterval expired_ban_limiter = 300000"
  by (simp_all add: expired_ban_limiter_def ban_def new_RateLimiter_def checkAndIncrement_def
        cleanup_def getWeightedCount_prev0 Let_def)

text \<open>
  Claim C5 as stated fails where the sweep is due. Five calls at time 1000 fill the
  window of 15 minutes (limit 5), and a ban of 10 minutes follows. At time 901000 the ban
  has expired and one window has passed. The counters the record held give the weighted
  count 5, so evaluating them denies the call; but the sweep at the head of
  \<open>checkAndIncrement\<close> deletes the record, and the call is allowed.
\<close>

theorem expired_ban_swept:
  "records expired_ban_limiter ''a'' =
     Some \<lparr>prevCount = 0, currCount = 5, windowStart = 1000, bannedUntil = Some 601000\<rparr> \<and>
   banExpired (Some 601000) 901000 \<and>
   fst (checkAndIncrement expired_ban_limiter ''a'' 901000) \<and>
   records (snd (checkAndIncrement expired_ban_limiter ''a'' 901000)) ''a'' =
     Some \<lparr>prevCount = 0, currCount = 1, windowStart = 901000, bannedUntil = None\<rparr> \<and>
   maxRequests expired_ban_limiter = 5 \<and>
   getWeightedCount expired_ban_limiter
     (slide expired_ban_limiter
        \<lparr>prevCount = 0, currCount = 5, windowStart = 1000, bannedUntil = None\<rparr> 900000) 901000 = 5 \<and>
   \<not> fst (checkAndIncrement
            (expired_ban_limiter\<lparr>records := (records expired_ban_limiter)(''a'' \<mapsto>
               \<lparr>prevCount = 0, currCount = 5, windowStart = 1000, bannedUntil = None\<rparr>)\<rparr>)
            ''a'' 901000)"
  by (simp add: expired_ban_limiter_fields checkAndIncrement_def cleanup_def isExpired_def
        getWeightedCount_def slide_def Let_def floor_eq_iff fl_div_def fl_sub_def fl_mul_def
        fl_add_def)


text \<open>
  Runs of the theorem: a ban of 2000 ms at time 0 (window 1000 ms); calls at 500 and 600
  leave the record alone; the call at 2500 behaves as without the ban; and the limiter of
  the example above, where the sweep deletes the record.
\<close>

theorem ban_then_expiry_witness:
  "isBanned (ban (new_RateLimiter 1000 5 0) ''a'' 2000 0) ''a'' 0 \<and>
   records (calls (ban (new_RateLimiter 1000 5 0) ''a'' 2000 0) [(''a'', 500), (''b'', 600)]) ''a'' =
     Some \<lparr>prevCount = 0, currCount = 0, windowStart = 0, bannedUntil = Some 2000\<rparr> \<and>
   banExpired (Some 2000) 2500 \<and>
   checkAndIncrement (ban (new_RateLimiter 1000 5 0) ''a'' 2000 0) ''a'' 2500 =
     checkAndIncrement
       ((ban (new_RateLimiter 1000 5 0) ''a'' 2000 0)
          \<lparr>records := (records (ban (new_RateLimiter 1000 5 0) ''a'' 2000 0))(''a'' \<mapsto>
             \<lparr>prevCount = 0, currCount = 0, windowStart = 0, bannedUntil = None\<rparr>)\<rparr>) ''a'' 2500 \<and>
   banExpired (Some 601000) 901000 \<and>
   fst (checkAndIncrement expired_ban_limiter ''a'' 901000) \<and>
   records (snd (checkAndIncrement expired_ban_limiter ''a'' 901000)) ''a'' =
     Some \<lparr>prevCount = 0, currCount = 1, windowStart = 901000, bannedUntil = None\<rparr>"
proof -
  define L where "L = ban (new_RateLimiter 1000 5 0) ''a'' 2000 0"
  let ?r = "\<lparr>prevCount = 0, currCount = 0, windowStart = 0, bannedUntil = Some 2000\<rparr>"
  have L: "records L ''a'' = Some ?r" "windowMs L = 1000" "lastCleanup L = 0"
    "cleanupInterval L = 300000"
    by (simp_all add: L_def ban_def new_RateLimiter_def)
  have p1: "isBanned (ban (new_RateLimiter 1000 5 0) ''a'' 2000 0) ''a'' 0"
    using ban_then_expiry [of 0 2000 0 "new_RateLimiter 1000 5 0" "''a''"] by simp
  have p2: "records (calls L [(''a'', 500), (''b'', 600)]) ''a'' = Some ?r"
    using ban_then_expiry [of _ _ _ L "''a''" ?r 2000 "[(''a'', 500), (''b'', 600)]"] L
    by simp
  have p3: "checkAndIncrement L ''a'' 2500 =
            checkAndIncrement (L\<lparr>records := (records L)(''a'' \<mapsto> ?r\<lparr>bannedUntil := None\<rparr>)\<rparr>) ''a'' 2500"
    using ban_then_expiry [of 2500 _ _ L "''a''" ?r] L by simp
  have p4: "fst (checkAndIncrement expired_ban_limiter ''a'' 901000) \<and>
            records (snd (checkAndIncrement expired_ban_limiter ''a'' 901000)) ''a'' =
              Some \<lparr>prevCount = 0, currCount = 1, windowStart = 901000, bannedUntil = None\<rparr>"
    using ban_then_expiry [of 901000 _ _ expired_ban_limiter "''a''"
        "\<lparr>prevCount = 0, currCount = 5, windowStart = 1000, bannedUntil = Some 601000\<rparr>"]
    by (simp add: expired_ban_limiter_fields)
  from p1 p2 p3 p4 show ?thesis unfolding L_def by simp
qed

subsection \<open>The pipeline\<close>

lemma fetch_eq:
  "fetch encode G req e now =
     (let ip = clientIP req;
          c = checkAndIncrement (RATE_LIMITER G) ip now;
          G1 = G\<lparr>RATE_LIMITER := snd c\<rparr>
      in if \<not> fst c then (Response 429, G1)
         else if isBanned (AUTH_FAIL_LIMITER G) ip now then (Response 403, G1)
         else if falsy (ACCESS_TOKEN e) \<or> \<not> YAML_STORAGE e then (Response 500, G1)
         else if \<not> verifyToken encode (token req) (ACCESS_TOKEN e)
              then (Response 401, recordAuthFail G1 ip now)
         else if pathname req \<noteq> ''/subscribe'' then (Response 404, clearAuthFail G1 ip)
         else (Fulfilment, clearAuthFail G1 ip))"
  by (simp add: fetch_def checkRateLimit_def checkAuthFailLimit_def Let_def split_beta)

lemma recordAuthFail_rate [simp]:
  "RATE_LIMITER (recordAuthFail G ip now) = RATE_LIMITER G"
  by (simp add: recordAuthFail_def split_beta split: option.splits)

lemma clearAuthFail_rate [simp]:
  "RATE_LIMITER (clearAuthFail G ip) = RATE_LIMITER G"
  by (simp add: clearAuthFail_def)

lemma recordAuthFail_auth:
  "AUTH_FAIL_LIMITER (recordAuthFail G ip now) =
     (let c = checkAndIncrement (AUTH_FAIL_LIMITER G) ip now in
      if fst c then snd c
      else (case records (snd c) ip of
              None \<Rightarrow> ban (snd c) ip AUTH_FAIL_BAN_DURATION now
            | Some record \<Rightarrow>
                if \<not> truthy (bannedUntil record) \<or> banExpired (bannedUntil record) now
                then ban (snd c) ip AUTH_FAIL_BAN_DURATION now else snd c))"
  by (simp add: recordAuthFail_def getRecord_def split_beta Let_def split: option.splits)

lemma recordAuthFail_config [simp]:
  "windowMs (AUTH_FAIL_LIMITER (recordAuthFail G ip now)) = windowMs (AUTH_FAIL_LIMITER G)"
  "maxRequests (AUTH_FAIL_LIMITER (recordAuthFail G ip now)) = maxRequests (AUTH_FAIL_LIMITER G)"
  by (simp_all add: recordAuthFail_auth Let_def split: option.splits)

lemma recordAuthFail_other:
  "ip \<noteq> key \<Longrightarrow>
   records (AUTH_FAIL_LIMITER (recordAuthFail G ip now)) key =
     records (cleanup (AUTH_FAIL_LIMITER G) now) key"
  by (simp add: recordAuthFail_auth Let_def ban_records checkAndIncrement_other
        split: option.splits)

lemma recordAuthFail_new:
  assumes "records (AUTH_FAIL_LIMITER G) ip = None"
  shows "records (AUTH_FAIL_LIMITER (recordAuthFail G ip now)) ip =
           Some \<lparr>prevCount = 0, currCount = 1, windowStart = now, bannedUntil = None\<rparr>"
  using checkAndIncrement_new [OF cleanup_None [OF assms], of now]
  by (simp add: recordAuthFail_auth Let_def)

lemma recordAuthFail_count:
  assumes "records (AUTH_FAIL_LIMITER G) ip =
             Some \<lparr>prevCount = 0, currCount = c, windowStart = t1, bannedUntil = None\<rparr>"
    and "0 < windowMs (AUTH_FAIL_LIMITER G)"
    and "now - t1 < windowMs (AUTH_FAIL_LIMITER G)"
  shows "records (AUTH_FAIL_LIMITER (recordAuthFail G ip now)) ip =
           Some (if c < maxRequests (AUTH_FAIL_LIMITER G)
                 then \<lparr>prevCount = 0, currCount = c + 1, windowStart = t1, bannedUntil = None\<rparr>
                 else \<lparr>prevCount = 0, currCount = c, windowStart = t1,
                        bannedUntil = Some (now + AUTH_FAIL_BAN_DURATION)\<rparr>)"
proof -
  let ?r = "\<lparr>prevCount = 0, currCount = c, windowStart = t1, bannedUntil = None\<rparr>"
  have kept: "records (cleanup (AUTH_FAIL_LIMITER G) now) ip = Some ?r"
    using assms by (intro cleanup_keeps isExpired_in_window) simp_all
  from checkAndIncrement_window [OF kept] assms(3)
  show ?thesis
    by (simp add: recordAuthFail_auth Let_def ban_records)
qed

lemma clear_config [simp]:
  "windowMs (clear L key) = windowMs L" "maxRequests (clear L key) = maxRequests L"
  by (simp_all add: clear_def)

lemma fetch_rate:
  "RATE_LIMITER (snd (fetch encode G req e now)) =
     snd (checkAndIncrement (RATE_LIMITER G) (clientIP req) now)"
  "(fst (fetch encode G req e now) = Response 429) =
     (\<not> fst (checkAndIncrement (RATE_LIMITER G) (clientIP req) now))"
  by (simp_all add: fetch_eq Let_def)

lemma fetch_auth_config [simp]:
  "windowMs (AUTH_FAIL_LIMITER (snd (fetch encode G req e now))) = windowMs (AUTH_FAIL_LIMITER G)"
  "maxRequests (AUTH_FAIL_LIMITER (snd (fetch encode G req e now))) =
     maxRequests (AUTH_FAIL_LIMITER G)"
  by (simp_all add: fetch_eq Let_def clearAuthFail_def)

lemma fetch_wrong_token:
  assumes "wrong_token_from encode key (req, e, now)"
    and "fst (fetch encode G req e now) \<noteq> Response 429"
    and "\<not> isBanned (AUTH_FAIL_LIMITER G) key now"
  shows "fst (fetch encode G req e now) = Response 401"
    and "AUTH_FAIL_LIMITER (snd (fetch encode G req e now)) =
           AUTH_FAIL_LIMITER (recordAuthFail G key now)"
  using assms
  by (simp_all add: wrong_token_from_def fetch_eq Let_def recordAuthFail_auth split: if_splits)

lemma fetch_keeps_ban:
  assumes "records (AUTH_FAIL_LIMITER G) key = Some r" and "bannedUntil r = Some b"
    and "now < b" and "0 \<le> now"
  shows "records (AUTH_FAIL_LIMITER (snd (fetch encode G req e now))) key = Some r"
    and "clientIP req = key \<Longrightarrow> fst (fetch encode G req e now) \<in> {Response 429, Response 403}"
proof -
  have banned: "isBanned (AUTH_FAIL_LIMITER G) key now"
    using assms by (auto simp: isBanned_iff)
  have kept: "records (cleanup (AUTH_FAIL_LIMITER G) now) key = Some r"
    using assms by (intro cleanup_keeps isExpired_banned)
  show "clientIP req = key \<Longrightarrow> fst (fetch encode G req e now) \<in> {Response 429, Response 403}"
    using banned by (simp add: fetch_eq Let_def)
  show "records (AUTH_FAIL_LIMITER (snd (fetch encode G req e now))) key = Some r"
  proof (cases "clientIP req = key")
    case True
    then show ?thesis using banned assms(1) by (simp add: fetch_eq Let_def)
  next
    case False
    then show ?thesis
      using assms(1) kept
      by (simp add: fetch_eq Let_def recordAuthFail_other clearAuthFail_def clear_def)
  qed
qed

lemma serve_length [simp]: "length (fst (serve encode G qs)) = length qs"
  by (induction qs arbitrary: G) (auto simp: split_beta)

lemma serve_Cons:
  "fst (serve encode G (q # qs)) =
     fst (fetch encode G (fst q) (fst (snd q)) (time_of q)) #
     fst (serve encode (snd (fetch encode G (fst q) (fst (snd q)) (time_of q))) qs)"
  "snd (serve encode G (q # qs)) =
     snd (serve encode (snd (fetch encode G (fst q) (fst (snd q)) (time_of q))) qs)"
  by (cases q; simp add: split_beta time_of_def)+

lemma serve_append_pair:
  "serve encode G (xs @ ys) =
     (fst (serve encode G xs) @ fst (serve encode (snd (serve encode G xs)) ys),
      snd (serve encode (snd (serve encode G xs)) ys))"
  by (induction xs arbitrary: G) (auto simp: split_beta)

lemma serve_append:
  "fst (serve encode G (xs @ ys)) =
     fst (serve encode G xs) @ fst (serve encode (snd (serve encode G xs)) ys)"
  "snd (serve encode G (xs @ ys)) = snd (serve encode (snd (serve encode G xs)) ys)"
  by (simp_all add: serve_append_pair)

lemma serve_wrong_tokens:
  assumes "windowMs (AUTH_FAIL_LIMITER G) = 900000" and "maxRequests (AUTH_FAIL_LIMITER G) = 5"
    and "records (AUTH_FAIL_LIMITER G) key =
           Some \<lparr>prevCount = 0, currCount = c, windowStart = t1, bannedUntil = None\<rparr>"
    and "c + int (length qs) \<le> 5"
    and "\<forall>q \<in> set qs. wrong_token_from encode key q \<and> time_of q - t1 < 900000"
    and "Response 429 \<notin> set (fst (serve encode G qs))"
  shows "fst (serve encode G qs) = replicate (length qs) (Response 401) \<and>
         records (AUTH_FAIL_LIMITER (snd (serve encode G qs))) key =
           Some \<lparr>prevCount = 0, currCount = c + int (length qs), windowStart = t1,
                 bannedUntil = None\<rparr> \<and>
         windowMs (AUTH_FAIL_LIMITER (snd (serve encode G qs))) = 900000 \<and>
         maxRequests (AUTH_FAIL_LIMITER (snd (serve encode G qs))) = 5"
  using assms
proof (induction qs arbitrary: G c)
  case Nil
  then show ?case by simp
next
  case (Cons q qs)
  obtain req e t where q: "q = (req, e, t)" by (cases q)
  let ?G' = "snd (fetch encode G req e t)"
  have wrong: "wrong_token_from encode key (req, e, t)" and t: "t - t1 < 900000"
    using Cons.prems(5) q by (simp_all add: time_of_def)
  have no429: "fst (fetch encode G req e t) \<noteq> Response 429"
    and no429': "Response 429 \<notin> set (fst (serve encode ?G' qs))"
    using Cons.prems(6) q by (auto simp: split_beta)
  have unbanned: "\<not> isBanned (AUTH_FAIL_LIMITER G) key t"
    using Cons.prems(3) by (simp add: isBanned_iff)
  note step = fetch_wrong_token [OF wrong no429 unbanned]
  have c: "c < 5" using Cons.prems(4) by simp
  have rec': "records (AUTH_FAIL_LIMITER ?G') key =
                Some \<lparr>prevCount = 0, currCount = c + 1, windowStart = t1, bannedUntil = None\<rparr>"
    using recordAuthFail_count [OF Cons.prems(3), of t] Cons.prems(1,2) t c
    by (simp add: step(2))
  have cfg': "windowMs (AUTH_FAIL_LIMITER ?G') = 900000" "maxRequests (AUTH_FAIL_LIMITER ?G') = 5"
    using Cons.prems(1,2) by simp_all
  have len: "c + 1 + int (length qs) \<le> 5" using Cons.prems(4) by simp
  have rest: "\<forall>q \<in> set qs. wrong_token_from encode key q \<and> time_of q - t1 < 900000"
    using Cons.prems(5) by simp
  from Cons.IH [OF cfg' rec' len rest no429'] step(1) q
  show ?case by (simp add: split_beta algebra_simps)
qed

subsection \<open>Six wrong tokens\<close>

lemma serve_rate:
  assumes "\<forall>q \<in> set qs. clientIP (fst q) = key"
  shows "map (\<lambda>r. r \<noteq> Response 429) (fst (serve encode G qs)) =
           decisions (RATE_LIMITER G) key (map (\<lambda>q. (key, time_of q)) qs)"
  using assms
proof (induction qs arbitrary: G)
  case Nil
  then show ?case by simp
next
  case (Cons q qs)
  obtain req e t where q: "q = (req, e, t)" by (cases q)
  have ip: "clientIP req = key" using Cons.prems q by simp
  have rest: "\<forall>q \<in> set qs. clientIP (fst q) = key" using Cons.prems by simp
  from Cons.IH [OF rest, of "snd (fetch encode G req e t)"] ip q
  show ?case
    by (simp add: split_beta time_of_def fetch_rate)
qed

lemma guess_wrong: "wrong_token_from encode_bytes ip (guess ip t) = (ip \<noteq> [])"
  by (simp add: wrong_token_from_def guess_def configured_def clientIP_def verifyToken_iff
        encode_bytes_def)

lemma guess_fields [simp]:
  "time_of (guess ip t) = t"
  "clientIP (fst (guess ip t)) = (if ip = [] then ''unknown'' else ip)"
  by (simp_all add: guess_def time_of_def clientIP_def)

lemma decisions_under_limit:
  assumes "records L key = None"
    and "\<forall>(k, t) \<in> set ((key, t0) # cs). t - t0 < windowMs L"
    and "int (length (filter (\<lambda>(k, t). k = key) cs)) < maxRequests L"
  shows "False \<notin> set (decisions L key ((key, t0) # cs))"
  unfolding decisions_fresh [OF assms(1,2)] using assms(3) by auto

lemma serve_pass:
  assumes "\<forall>q \<in> set qs. clientIP (fst q) = key"
    and "False \<notin> set (decisions (RATE_LIMITER G) key (map (\<lambda>q. (key, time_of q)) qs))"
  shows "Response 429 \<notin> set (fst (serve encode G qs))"
proof
  assume "Response 429 \<in> set (fst (serve encode G qs))"
  then have "False \<in> set (map (\<lambda>r. r \<noteq> Response 429) (fst (serve encode G qs)))"
    by (simp add: image_iff)
  with assms(2) show False unfolding serve_rate [OF assms(1)] by simp
qed

lemma six_guesses_wrong:
  "\<forall>q \<in> set six_guesses. wrong_token_from encode_bytes ''10.0.0.1'' q \<and> 0 \<le> time_of q \<and>
      time_of q - time_of (hd six_guesses) < 900000"
  by (simp add: six_guesses_def guess_wrong)

lemma init_gateway_auth:
  "windowMs (AUTH_FAIL_LIMITER (init_gateway t)) = 900000"
  "maxRequests (AUTH_FAIL_LIMITER (init_gateway t)) = 5"
  "records (AUTH_FAIL_LIMITER (init_gateway t)) key = None"
  by (simp_all add: init_gateway_def new_RateLimiter_def)

lemma trace_append:
  "trace encode G (xs @ ys) = trace encode G xs @ trace encode (snd (serve encode G xs)) ys"
  by (induction xs arbitrary: G) (auto simp: split_beta)

lemma trace_responses: "map (\<lambda>x. snd (snd x)) (trace encode G qs) = fst (serve encode G qs)"
  by (induction qs arbitrary: G) (auto simp: split_beta)

lemma trace_requests: "map (\<lambda>x. fst (snd x)) (trace encode G qs) = qs"
  by (induction qs arbitrary: G) auto

lemma serve_auth_windowMs [simp]:
  "windowMs (AUTH_FAIL_LIMITER (snd (serve encode G qs))) = windowMs (AUTH_FAIL_LIMITER G)"
  by (induction qs arbitrary: G) (simp_all add: serve_Cons)

lemma serve_auth_maxRequests [simp]:
  "maxRequests (AUTH_FAIL_LIMITER (snd (serve encode G qs))) = maxRequests (AUTH_FAIL_LIMITER G)"
  by (induction qs arbitrary: G) (simp_all add: serve_Cons)

lemma fetch_other_auth:
  assumes "clientIP req \<noteq> key"
  shows "records (AUTH_FAIL_LIMITER (snd (fetch encode G req e now))) key =
           records (AUTH_FAIL_LIMITER G) key \<or>
         records (AUTH_FAIL_LIMITER (snd (fetch encode G req e now))) key =
           records (cleanup (AUTH_FAIL_LIMITER G) now) key"
  using assms
  by (simp add: fetch_eq Let_def recordAuthFail_other clearAuthFail_def clear_def)

lemma fetch_other_none:
  assumes "clientIP req \<noteq> key" and "records (AUTH_FAIL_LIMITER G) key = None"
  shows "records (AUTH_FAIL_LIMITER (snd (fetch encode G req e now))) key = None"
  using fetch_other_auth [OF assms(1), of encode G e now] assms(2) cleanup_None [OF assms(2)]
  by auto

lemma fetch_other_window:
  assumes "clientIP req \<noteq> key" and "records (AUTH_FAIL_LIMITER G) key = Some r"
    and "bannedUntil r = None" and "0 < windowMs (AUTH_FAIL_LIMITER G)"
    and "now - windowStart r < windowMs (AUTH_FAIL_LIMITER G)"
  shows "records (AUTH_FAIL_LIMITER (snd (fetch encode G req e now))) key = Some r"
proof -
  have "records (cleanup (AUTH_FAIL_LIMITER G) now) key = Some r"
    using assms by (intro cleanup_keeps isExpired_in_window)
  with fetch_other_auth [OF assms(1), of encode G e now] assms(2) show ?thesis by auto
qed

lemma fetch_banned_response:
  assumes "records (AUTH_FAIL_LIMITER G) key = Some r" and "bannedUntil r = Some b"
    and "now < b" and "0 \<le> now" and "clientIP req = key"
  shows "fst (fetch encode G req e now) =
           (if fst (checkAndIncrement (RATE_LIMITER G) key now)
            then Response 403 else Response 429)"
proof -
  have "isBanned (AUTH_FAIL_LIMITER G) key now"
    using assms by (auto simp: isBanned_iff)
  then show ?thesis using assms(5) by (simp add: fetch_eq Let_def)
qed

lemma serve_others_none:
  assumes "\<forall>q \<in> set qs. \<not> from_client key q" and "records (AUTH_FAIL_LIMITER G) key = None"
  shows "records (AUTH_FAIL_LIMITER (snd (serve encode G qs))) key = None"
  using assms
proof (induction qs arbitrary: G)
  case Nil
  then show ?case by simp
next
  case (Cons q qs)
  obtain req e t where q: "q = (req, e, t)" by (cases q)
  have "clientIP req \<noteq> key" using Cons.prems(1) by (simp add: q from_client_def)
  from fetch_other_none [OF this Cons.prems(2)] Cons.IH Cons.prems(1) q
  show ?case by (simp add: split_beta)
qed

lemma trace_banned:
  assumes "records (AUTH_FAIL_LIMITER G) key = Some r" and "bannedUntil r = Some b"
    and "\<forall>q \<in> set qs. 0 \<le> time_of q \<and> time_of q < b"
  shows "\<forall>(G', q, r) \<in> set (trace encode G qs). from_client key q \<longrightarrow>
           r = (if fst (checkAndIncrement (RATE_LIMITER G') key (time_of q))
                then Response 403 else Response 429)"
  using assms
proof (induction qs arbitrary: G)
  case Nil
  then show ?case by simp
next
  case (Cons q qs)
  obtain req e t where q: "q = (req, e, t)" by (cases q)
  have t: "t < b" "0 \<le> t" using Cons.prems(3) by (simp_all add: q time_of_def)
  have keep: "records (AUTH_FAIL_LIMITER (snd (fetch encode G req e t))) key = Some r"
    by (rule fetch_keeps_ban(1) [OF Cons.prems(1,2) t])
  have rest: "\<forall>q \<in> set qs. 0 \<le> time_of q \<and> time_of q < b" using Cons.prems(3) by simp
  have hd: "from_client key q \<longrightarrow>
              fst (fetch encode G req e t) =
                (if fst (checkAndIncrement (RATE_LIMITER G) key (time_of q))
                 then Response 403 else Response 429)"
    using fetch_banned_response [OF Cons.prems(1,2) t, of req encode e]
    by (simp add: q from_client_def time_of_def)
  from Cons.IH [OF keep Cons.prems(2) rest] hd show ?case
    by (simp add: q)
qed

lemma serve_failures:
  assumes "windowMs (AUTH_FAIL_LIMITER G) = 900000" and "maxRequests (AUTH_FAIL_LIMITER G) = 5"
    and "records (AUTH_FAIL_LIMITER G) key =
           Some \<lparr>prevCount = 0, currCount = c, windowStart = t1, bannedUntil = None\<rparr>"
    and "c + int (length (filter (from_client key) qs)) \<le> 5"
    and "\<forall>q \<in> set qs. (from_client key q \<longrightarrow> wrong_token_from encode key q) \<and>
                         time_of q - t1 < 900000"
    and "\<forall>(G', q, r) \<in> set (trace encode G qs). from_client key q \<longrightarrow> r \<noteq> Response 429"
  shows "(\<forall>(G', q, r) \<in> set (trace encode G qs). from_client key q \<longrightarrow> r = Response 401) \<and>
         records (AUTH_FAIL_LIMITER (snd (serve encode G qs))) key =
           Some \<lparr>prevCount = 0, currCount = c + int (length (filter (from_client key) qs)),
                 windowStart = t1, bannedUntil = None\<rparr>"
  using assms
proof (induction qs arbitrary: G c)
  case Nil
  then show ?case by simp
next
  case (Cons q qs)
  obtain req e t where q: "q = (req, e, t)" by (cases q)
  let ?G' = "snd (fetch encode G req e t)"
  let ?r = "\<lparr>prevCount = 0, currCount = c, windowStart = t1, bannedUntil = None\<rparr>"
  have t: "t - t1 < 900000" using Cons.prems(5) q by (simp add: time_of_def)
  have cfg': "windowMs (AUTH_FAIL_LIMITER ?G') = 900000" "maxRequests (AUTH_FAIL_LIMITER ?G') = 5"
    using Cons.prems(1,2) by simp_all
  have rest: "\<forall>q \<in> set qs. (from_client key q \<longrightarrow> wrong_token_from encode key q) \<and>
                time_of q - t1 < 900000"
    using Cons.prems(5) by simp
  have passed': "\<forall>(G', q, r) \<in> set (trace encode ?G' qs). from_client key q \<longrightarrow> r \<noteq> Response 429"
    using Cons.prems(6) by (simp add: q)
  show ?case
  proof (cases "from_client key q")
    case False
    then have other: "clientIP req \<noteq> key" by (simp add: q from_client_def)
    have rec': "records (AUTH_FAIL_LIMITER ?G') key = Some ?r"
      using fetch_other_window [OF other Cons.prems(3)] Cons.prems(1) t by simp
    have len: "c + int (length (filter (from_client key) qs)) \<le> 5"
      using Cons.prems(4) False by simp
    from Cons.IH [OF cfg' rec' len rest passed'] False show ?thesis
      by (simp add: q split_beta)
  next
    case True
    then have wrong: "wrong_token_from encode key (req, e, t)"
      using Cons.prems(5) q by simp
    have no429: "fst (fetch encode G req e t) \<noteq> Response 429"
      using Cons.prems(6) True by (simp add: q)
    have unbanned: "\<not> isBanned (AUTH_FAIL_LIMITER G) key t"
      using Cons.prems(3) by (simp add: isBanned_iff)
    note step = fetch_wrong_token [OF wrong no429 unbanned]
    have c: "c < 5" using Cons.prems(4) True by simp
    have rec': "records (AUTH_FAIL_LIMITER ?G') key =
                  Some \<lparr>prevCount = 0, currCount = c + 1, windowStart = t1, bannedUntil = None\<rparr>"
      using recordAuthFail_count [OF Cons.prems(3), of t] Cons.prems(1,2) t c
      by (simp add: step(2))
    have len: "c + 1 + int (length (filter (from_client key) qs)) \<le> 5"
      using Cons.prems(4) True by simp
    from Cons.IH [OF cfg' rec' len rest passed'] step(1) True show ?thesis
      by (simp add: q split_beta algebra_simps)
  qed
qed

lemma trace_request_mem:
  "(G', q, r) \<in> set (trace encode G qs) \<Longrightarrow> q \<in> set qs"
proof (induction qs arbitrary: G)
  case Nil
  then show ?case by simp
next
  case (Cons a qs)
  obtain req e t where a: "a = (req, e, t)" by (cases a)
  from Cons.prems have "q = a \<or> (G', q, r) \<in> set (trace encode (snd (fetch encode G req e t)) qs)"
    by (auto simp: a)
  then show ?case using Cons.IH by auto
qed

lemma six_wrong_tokens:
  assumes cfg: "windowMs (AUTH_FAIL_LIMITER G) = 900000"
      "maxRequests (AUTH_FAIL_LIMITER G) = 5"
    and fresh: "records (AUTH_FAIL_LIMITER G) key = None"
    and six: "length (filter (from_client key) qs) = 6"
    and last: "from_client key (last qs)"
    and wrong: "\<forall>q \<in> set qs. (from_client key q \<longrightarrow> wrong_token_from encode key q) \<and>
                  0 \<le> time_of q \<and>
                  time_of q - time_of (hd (filter (from_client key) qs)) < 900000"
    and passed: "\<forall>(G', q, r) \<in> set (trace encode G qs).
                   from_client key q \<longrightarrow> r \<noteq> Response 429"
    and later: "\<forall>q \<in> set later. 0 \<le> time_of q \<and> time_of q < time_of (last qs) + 1800000"
  shows "(\<forall>(G', q, r) \<in> set (trace encode G qs). from_client key q \<longrightarrow> r = Response 401) \<and>
         records (AUTH_FAIL_LIMITER (snd (serve encode G qs))) key =
           Some \<lparr>prevCount = 0, currCount = 5,
                 windowStart = time_of (hd (filter (from_client key) qs)),
                 bannedUntil = Some (time_of (last qs) + 1800000)\<rparr> \<and>
         (\<forall>(G', q, r) \<in> set (trace encode (snd (serve encode G qs)) later).
            from_client key q \<longrightarrow>
            r = (if fst (checkAndIncrement (RATE_LIMITER G') key (time_of q))
                 then Response 403 else Response 429))"
proof -
  \<comment> \<open>the requests before the first of the client, the first, those up to the sixth, the sixth\<close>
  have "filter (from_client key) qs \<noteq> []" using six by auto
  then have "\<exists>q \<in> set qs. from_client key q" by (simp add: filter_empty_conv)
  then obtain pre q1 rest where qs: "qs = pre @ q1 # rest" and k1: "from_client key q1"
    and pre: "\<forall>q \<in> set pre. \<not> from_client key q"
    using split_list_first_prop [of qs "from_client key"] by blast
  have fpre: "filter (from_client key) pre = []" using pre by (simp add: filter_empty_conv)
  have fqs: "filter (from_client key) qs = q1 # filter (from_client key) rest"
    using k1 by (simp add: qs fpre)
  have rest5: "length (filter (from_client key) rest) = 5" using six by (simp add: fqs)
  then have "rest \<noteq> []" by auto
  then obtain mid q6 where rest: "rest = mid @ [q6]" by (cases rest rule: rev_cases) auto
  have lastq: "last qs = q6" by (simp add: qs rest)
  have k6: "from_client key q6" using last lastq by simp
  have mid4: "length (filter (from_client key) mid) = 4" using rest5 k6 by (simp add: rest)
  obtain req1 e1 t1 where q1: "q1 = (req1, e1, t1)" by (cases q1)
  obtain req6 e6 t6 where q6: "q6 = (req6, e6, t6)" by (cases q6)
  have hd: "time_of (hd (filter (from_client key) qs)) = t1" by (simp add: fqs q1 time_of_def)
  have t6: "time_of (last qs) = t6" by (simp add: lastq q6 time_of_def)
  define G0 where "G0 = snd (serve encode G pre)"
  define G1 where "G1 = snd (fetch encode G0 req1 e1 t1)"
  define G5 where "G5 = snd (serve encode G1 mid)"
  define G6 where "G6 = snd (fetch encode G5 req6 e6 t6)"
  have tr: "trace encode G qs =
              trace encode G pre @ (G0, q1, fst (fetch encode G0 req1 e1 t1)) #
              trace encode G1 mid @ [(G5, q6, fst (fetch encode G5 req6 e6 t6))]"
    by (simp add: qs rest q1 q6 trace_append G0_def G1_def G5_def split_beta)
  have final: "snd (serve encode G qs) = G6"
    by (simp add: qs rest q1 q6 serve_append G0_def G1_def G5_def G6_def split_beta)
  \<comment> \<open>other clients leave the record absent\<close>
  have none0: "records (AUTH_FAIL_LIMITER G0) key = None"
    unfolding G0_def by (rule serve_others_none [OF pre fresh])
  have cfg0: "windowMs (AUTH_FAIL_LIMITER G0) = 900000" "maxRequests (AUTH_FAIL_LIMITER G0) = 5"
    using cfg by (simp_all add: G0_def)
  \<comment> \<open>the first request creates the record\<close>
  have w1: "wrong_token_from encode key (req1, e1, t1)"
    using wrong k1 by (simp add: qs q1)
  have n1: "fst (fetch encode G0 req1 e1 t1) \<noteq> Response 429"
    using passed k1 by (simp add: tr)
  have u1: "\<not> isBanned (AUTH_FAIL_LIMITER G0) key t1"
    using none0 by (simp add: isBanned_iff)
  note s1 = fetch_wrong_token [OF w1 n1 u1]
  have rec1: "records (AUTH_FAIL_LIMITER G1) key =
                Some \<lparr>prevCount = 0, currCount = 1, windowStart = t1, bannedUntil = None\<rparr>"
    using recordAuthFail_new [OF none0] by (simp add: G1_def s1(2))
  have cfg1: "windowMs (AUTH_FAIL_LIMITER G1) = 900000" "maxRequests (AUTH_FAIL_LIMITER G1) = 5"
    using cfg0 by (simp_all add: G1_def)
  \<comment> \<open>the next four count up to the limit\<close>
  have wmid: "\<forall>q \<in> set mid. (from_client key q \<longrightarrow> wrong_token_from encode key q) \<and>
                time_of q - t1 < 900000"
    using wrong hd by (simp add: qs rest)
  have pmid: "\<forall>(G', q, r) \<in> set (trace encode G1 mid). from_client key q \<longrightarrow> r \<noteq> Response 429"
    using passed by (simp add: tr)
  have len: "1 + int (length (filter (from_client key) mid)) \<le> 5" using mid4 by simp
  note s5 = serve_failures [OF cfg1 rec1 len wmid pmid]
  have rec5: "records (AUTH_FAIL_LIMITER G5) key =
                Some \<lparr>prevCount = 0, currCount = 5, windowStart = t1, bannedUntil = None\<rparr>"
    using s5 mid4 by (simp add: G5_def)
  have cfg5: "windowMs (AUTH_FAIL_LIMITER G5) = 900000" "maxRequests (AUTH_FAIL_LIMITER G5) = 5"
    using cfg1 by (simp_all add: G5_def)
  \<comment> \<open>the sixth is answered 401 and sets the ban\<close>
  have w6: "wrong_token_from encode key (req6, e6, t6)" and t6': "t6 - t1 < 900000" "0 \<le> t6"
    using wrong hd k6 by (simp_all add: qs rest q6 time_of_def)
  have n6: "fst (fetch encode G5 req6 e6 t6) \<noteq> Response 429"
    using passed k6 by (simp add: tr)
  have u6: "\<not> isBanned (AUTH_FAIL_LIMITER G5) key t6"
    using rec5 by (simp add: isBanned_iff)
  note s6 = fetch_wrong_token [OF w6 n6 u6]
  have rec6: "records (AUTH_FAIL_LIMITER G6) key =
                Some \<lparr>prevCount = 0, currCount = 5, windowStart = t1,
                      bannedUntil = Some (t6 + 1800000)\<rparr>"
    using recordAuthFail_count [OF rec5, of t6] cfg5 t6'
    by (simp add: G6_def s6(2) AUTH_FAIL_BAN_DURATION_def)
  \<comment> \<open>the answers\<close>
  have a_pre: "\<forall>(G', q, r) \<in> set (trace encode G pre). \<not> from_client key q"
    using pre by (auto dest: trace_request_mem)
  have answers: "\<forall>(G', q, r) \<in> set (trace encode G qs). from_client key q \<longrightarrow> r = Response 401"
    unfolding tr using a_pre s1(1) s5 s6(1) by auto
  have later': "\<forall>q \<in> set later. 0 \<le> time_of q \<and> time_of q < t6 + 1800000"
    using later t6 by simp
  have banned: "\<forall>(G', q, r) \<in> set (trace encode G6 later). from_client key q \<longrightarrow>
           r = (if fst (checkAndIncrement (RATE_LIMITER G') key (time_of q))
                then Response 403 else Response 429)"
    by (rule trace_banned [OF rec6 _ later']) simp
  show ?thesis
    using answers rec6 banned by (simp add: final hd t6)
qed

lemma trace_allowed:
  assumes "False \<notin> set (decisions (RATE_LIMITER G) key
                          (map (\<lambda>q. (clientIP (fst q), time_of q)) qs))"
  shows "\<forall>(G', q, r) \<in> set (trace encode G qs). from_client key q \<longrightarrow>
           fst (checkAndIncrement (RATE_LIMITER G') key (time_of q)) \<and> r \<noteq> Response 429"
  using assms
proof (induction qs arbitrary: G)
  case Nil
  then show ?case by simp
next
  case (Cons q qs)
  obtain req e t where q: "q = (req, e, t)" by (cases q)
  let ?G' = "snd (fetch encode G req e t)"
  have tl: "False \<notin> set (decisions (RATE_LIMITER ?G') key
                           (map (\<lambda>q. (clientIP (fst q), time_of q)) qs))"
    using Cons.prems by (simp add: q split_beta time_of_def fetch_rate)
  have hd: "from_client key q \<longrightarrow>
              fst (checkAndIncrement (RATE_LIMITER G) key (time_of q)) \<and>
              fst (fetch encode G req e t) \<noteq> Response 429"
    using Cons.prems by (auto simp: q split_beta time_of_def fetch_rate from_client_def)
  from Cons.IH [OF tl] hd show ?case by (simp add: q)
qed

lemma guess_from_client [simp]:
  "from_client key (guess ip t) = ((if ip = [] then ''unknown'' else ip) = key)"
  by (simp add: from_client_def)

lemma mixed_guesses_allowed:
  "\<forall>(G', q, r) \<in> set (trace encode_bytes (init_gateway 0) (mixed_guesses @ later_guesses)).
     from_client ''10.0.0.1'' q \<longrightarrow>
     fst (checkAndIncrement (RATE_LIMITER G') ''10.0.0.1'' (time_of q)) \<and> r \<noteq> Response 429"
proof (rule trace_allowed)
  have "False \<notin> set (decisions (new_RateLimiter 60000 30 0) ''10.0.0.1''
          ((''10.0.0.1'', 1000) #
           [(''10.0.0.2'', 1500), (''10.0.0.1'', 2000), (''10.0.0.1'', 3000),
            (''10.0.0.2'', 3500), (''10.0.0.1'', 4000), (''10.0.0.1'', 5000),
            (''10.0.0.1'', 6000), (''10.0.0.1'', 7000), (''10.0.0.2'', 8000),
            (''10.0.0.1'', 9000)]))"
    by (rule decisions_under_limit) (simp_all add: new_RateLimiter_def)
  then show "False \<notin> set (decisions (RATE_LIMITER (init_gateway 0)) ''10.0.0.1''
          (map (\<lambda>q. (clientIP (fst q), time_of q)) (mixed_guesses @ later_guesses)))"
    by (simp add: mixed_guesses_def later_guesses_def init_gateway_def del: decisions.simps)
qed

lemma six_guesses_allowed:
  "\<forall>(G', q, r) \<in> set (trace encode_bytes (init_gateway 0) six_guesses).
     from_client ''10.0.0.1'' q \<longrightarrow> r \<noteq> Response 429"
proof -
  have "False \<notin> set (decisions (new_RateLimiter 60000 30 0) ''10.0.0.1''
          ((''10.0.0.1'', 1000) #
           [(''10.0.0.1'', 2000), (''10.0.0.1'', 3000), (''10.0.0.1'', 4000),
            (''10.0.0.1'', 5000), (''10.0.0.1'', 6000)]))"
    by (rule decisions_under_limit) (simp_all add: new_RateLimiter_def)
  then have "False \<notin> set (decisions (RATE_LIMITER (init_gateway 0)) ''10.0.0.1''
          (map (\<lambda>q. (clientIP (fst q), time_of q)) six_guesses))"
    by (simp add: six_guesses_def init_gateway_def del: decisions.simps)
  from trace_allowed [OF this] show ?thesis by blast
qed

text \<open>
  Claim C3, as amended. The auth-failure limiter (window 15 minutes, limit 5) holds no
  record for the client \<open>key\<close>. The requests \<open>qs\<close> come from any clients in any order;
  exactly six of them come from \<open>key\<close>, and the last request of \<open>qs\<close> is the sixth of
  them. The six carry a wrong token with a configured environment and none of them is
  rate limited; every request of \<open>qs\<close> is handled at a time that is not negative and less
  than 15 minutes after the first request of \<open>key\<close>. Then all six are answered 401, and
  the sixth sets the ban: the record of \<open>key\<close> holds five counted failures and a ban
  until 30 minutes after the sixth request. Of the requests \<open>later\<close> that follow, again of
  any clients and all handled less than 30 minutes after the sixth, every one that comes
  from \<open>key\<close> is answered 403 when the traffic limiter allows it and 429 when the traffic
  limiter rejects it, and so never 401.
  (\<open>trace\<close> lists each request with the state in which it is handled and its response.)
\<close>

theorem six_failures_then_banned:
  assumes "windowMs (AUTH_FAIL_LIMITER G) = 900000"
    and "maxRequests (AUTH_FAIL_LIMITER G) = 5"
    and "records (AUTH_FAIL_LIMITER G) key = None"
    and "length (filter (from_client key) qs) = 6"
    and "from_client key (last qs)"
    and "\<forall>q \<in> set qs. (from_client key q \<longrightarrow> wrong_token_from encode key q) \<and>
           0 \<le> time_of q \<and>
           time_of q - time_of (hd (filter (from_client key) qs)) < 900000"
    and "\<forall>(G', q, r) \<in> set (trace encode G qs). from_client key q \<longrightarrow> r \<noteq> Response 429"
    and "\<forall>q \<in> set later. 0 \<le> time_of q \<and> time_of q < time_of (last qs) + 1800000"
  shows "(\<forall>(G', q, r) \<in> set (trace encode G qs). from_client key q \<longrightarrow> r = Response 401) \<and>
         records (AUTH_FAIL_LIMITER (snd (serve encode G qs))) key =
           Some \<lparr>prevCount = 0, currCount = 5,
                 windowStart = time_of (hd (filter (from_client key) qs)),
                 bannedUntil = Some (time_of (last qs) + 1800000)\<rparr> \<and>
         (\<forall>(G', q, r) \<in> set (trace encode (snd (serve encode G qs)) later).
            from_client key q \<longrightarrow>
            r = (if fst (checkAndIncrement (RATE_LIMITER G') key (time_of q))
                 then Response 403 else Response 429))"
  using six_wrong_tokens [OF assms] .

text \<open>
  A run of the theorem from the initial state: six guesses from \<open>10.0.0.1\<close>, one second
  apart, with two requests of \<open>10.0.0.2\<close> between them, then three more requests, the
  second of them from \<open>10.0.0.2\<close>. The six guesses are answered 401 and the two later
  requests of \<open>10.0.0.1\<close> are answered 403.
\<close>

theorem six_failures_then_banned_witness:
  "length (filter (from_client ''10.0.0.1'') mixed_guesses) = 6 \<and>
   length mixed_guesses = 8 \<and>
   fst (serve encode_bytes (init_gateway 0) mixed_guesses) ! 0 = Response 401 \<and>
   fst (serve encode_bytes (init_gateway 0) mixed_guesses) ! 2 = Response 401 \<and>
   fst (serve encode_bytes (init_gateway 0) mixed_guesses) ! 3 = Response 401 \<and>
   fst (serve encode_bytes (init_gateway 0) mixed_guesses) ! 5 = Response 401 \<and>
   fst (serve encode_bytes (init_gateway 0) mixed_guesses) ! 6 = Response 401 \<and>
   fst (serve encode_bytes (init_gateway 0) mixed_guesses) ! 7 = Response 401 \<and>
   records (AUTH_FAIL_LIMITER (snd (serve encode_bytes (init_gateway 0) mixed_guesses)))
     ''10.0.0.1'' =
     Some \<lparr>prevCount = 0, currCount = 5, windowStart = 1000, bannedUntil = Some 1806000\<rparr> \<and>
   fst (serve encode_bytes (snd (serve encode_bytes (init_gateway 0) mixed_guesses))
          later_guesses) ! 0 = Response 403 \<and>
   fst (serve encode_bytes (snd (serve encode_bytes (init_gateway 0) mixed_guesses))
          later_guesses) ! 2 = Response 403"
proof -
  define G where "G = init_gateway 0"
  define G6 where "G6 = snd (serve encode_bytes G mixed_guesses)"
  have six: "length (filter (from_client ''10.0.0.1'') mixed_guesses) = 6"
    and last: "from_client ''10.0.0.1'' (last mixed_guesses)"
    by (simp_all add: mixed_guesses_def)
  have hd: "time_of (hd (filter (from_client ''10.0.0.1'') mixed_guesses)) = 1000"
    and lastt: "time_of (last mixed_guesses) = 6000"
    by (simp_all add: mixed_guesses_def)
  have wrong: "\<forall>q \<in> set mixed_guesses.
      (from_client ''10.0.0.1'' q \<longrightarrow> wrong_token_from encode_bytes ''10.0.0.1'' q) \<and>
      0 \<le> time_of q \<and>
      time_of q - time_of (hd (filter (from_client ''10.0.0.1'') mixed_guesses)) < 900000"
    unfolding hd by (simp add: mixed_guesses_def guess_wrong)
  have allowed: "\<forall>(G', q, r) \<in> set (trace encode_bytes G mixed_guesses @
                                       trace encode_bytes G6 later_guesses).
     from_client ''10.0.0.1'' q \<longrightarrow>
     fst (checkAndIncrement (RATE_LIMITER G') ''10.0.0.1'' (time_of q)) \<and> r \<noteq> Response 429"
    using mixed_guesses_allowed by (simp add: trace_append G_def G6_def)
  then have allowed1: "\<forall>(G', q, r) \<in> set (trace encode_bytes G mixed_guesses).
     from_client ''10.0.0.1'' q \<longrightarrow>
     fst (checkAndIncrement (RATE_LIMITER G') ''10.0.0.1'' (time_of q)) \<and> r \<noteq> Response 429"
    and allowed2: "\<forall>(G', q, r) \<in> set (trace encode_bytes G6 later_guesses).
     from_client ''10.0.0.1'' q \<longrightarrow>
     fst (checkAndIncrement (RATE_LIMITER G') ''10.0.0.1'' (time_of q)) \<and> r \<noteq> Response 429"
    by (simp_all add: ball_Un)
  from allowed1 have passed: "\<forall>(G', q, r) \<in> set (trace encode_bytes G mixed_guesses).
                       from_client ''10.0.0.1'' q \<longrightarrow> r \<noteq> Response 429"
    by blast
  have later: "\<forall>q \<in> set later_guesses. 0 \<le> time_of q \<and>
                 time_of q < time_of (last mixed_guesses) + 1800000"
    unfolding lastt by (simp add: later_guesses_def)
  have cfg: "windowMs (AUTH_FAIL_LIMITER G) = 900000" "maxRequests (AUTH_FAIL_LIMITER G) = 5"
    "records (AUTH_FAIL_LIMITER G) ''10.0.0.1'' = None"
    by (simp_all add: G_def init_gateway_auth)
  note banned = six_failures_then_banned [OF cfg six last wrong passed later]
  have first: "\<forall>(G', q, r) \<in> set (trace encode_bytes G mixed_guesses).
                 from_client ''10.0.0.1'' q \<longrightarrow> r = Response 401"
    using banned by blast
  have rec: "records (AUTH_FAIL_LIMITER G6) ''10.0.0.1'' =
               Some \<lparr>prevCount = 0, currCount = 5, windowStart = 1000,
                     bannedUntil = Some 1806000\<rparr>"
    using banned by (simp add: hd lastt G6_def)
  have "\<forall>(G', q, r) \<in> set (trace encode_bytes G6 later_guesses).
          from_client ''10.0.0.1'' q \<longrightarrow>
          r = (if fst (checkAndIncrement (RATE_LIMITER G') ''10.0.0.1'' (time_of q))
               then Response 403 else Response 429)"
    using banned unfolding G6_def by blast
  with allowed2 have second: "\<forall>(G', q, r) \<in> set (trace encode_bytes G6 later_guesses).
          from_client ''10.0.0.1'' q \<longrightarrow> r = Response 403"
    by fastforce
  have r1: "fst (serve encode_bytes G mixed_guesses) ! 0 = Response 401 \<and>
            fst (serve encode_bytes G mixed_guesses) ! 2 = Response 401 \<and>
            fst (serve encode_bytes G mixed_guesses) ! 3 = Response 401 \<and>
            fst (serve encode_bytes G mixed_guesses) ! 5 = Response 401 \<and>
            fst (serve encode_bytes G mixed_guesses) ! 6 = Response 401 \<and>
            fst (serve encode_bytes G mixed_guesses) ! 7 = Response 401"
    using first unfolding trace_responses [symmetric]
    by (simp add: mixed_guesses_def guess_def from_client_def clientIP_def)
  have r2: "fst (serve encode_bytes G6 later_guesses) ! 0 = Response 403 \<and>
            fst (serve encode_bytes G6 later_guesses) ! 2 = Response 403"
    using second unfolding trace_responses [symmetric]
    by (simp add: later_guesses_def guess_def from_client_def clientIP_def)
  have len: "length mixed_guesses = 8" by (simp add: mixed_guesses_def)
  from six len r1 rec r2 show ?thesis unfolding G6_def G_def by simp
qed

text \<open>
  Claim C3 as stated fails at the sixth request: it passes the ban check, which is made
  before the token is verified, and is answered 401; only the ban it sets turns the
  seventh request into a 403.
\<close>

theorem sixth_wrong_token_unauthorized:
  "length six_guesses = 6 \<and>
   list_all (wrong_token_from encode_bytes ''10.0.0.1'') six_guesses \<and>
   time_of (last six_guesses) - time_of (hd six_guesses) = 5000 \<and>
   records (AUTH_FAIL_LIMITER (init_gateway 0)) ''10.0.0.1'' = None \<and>
   fst (serve encode_bytes (init_gateway 0) six_guesses) ! 5 = Response 401"
proof -
  have six: "length (filter (from_client ''10.0.0.1'') six_guesses) = 6"
    and last: "from_client ''10.0.0.1'' (last six_guesses)"
    by (simp_all add: six_guesses_def)
  have wrong: "\<forall>q \<in> set six_guesses.
      (from_client ''10.0.0.1'' q \<longrightarrow> wrong_token_from encode_bytes ''10.0.0.1'' q) \<and>
      0 \<le> time_of q \<and>
      time_of q - time_of (hd (filter (from_client ''10.0.0.1'') six_guesses)) < 900000"
    by (simp add: six_guesses_def guess_wrong)
  have later: "\<forall>q \<in> set []. 0 \<le> time_of q \<and> time_of q < time_of (last six_guesses) + 1800000"
    by simp
  from six_wrong_tokens [OF init_gateway_auth six last wrong six_guesses_allowed later]
  have "\<forall>(G', q, r) \<in> set (trace encode_bytes (init_gateway 0) six_guesses).
          from_client ''10.0.0.1'' q \<longrightarrow> r = Response 401"
    by blast
  then have "fst (serve encode_bytes (init_gateway 0) six_guesses) ! 5 = Response 401"
    unfolding trace_responses [symmetric]
    by (simp add: six_guesses_def guess_def from_client_def clientIP_def)
  then show ?thesis
    using six_guesses_wrong
    by (simp add: list_all_iff init_gateway_auth six_guesses_def)
qed

subsection \<open>Clearing on success, routing, and the client key\<close>

lemma fetch_verified:
  assumes "fst (fetch encode G req e now) \<in> {Response 404, Fulfilment}"
  shows "AUTH_FAIL_LIMITER (snd (fetch encode G req e now)) =
           clear (AUTH_FAIL_LIMITER G) (clientIP req)"
  using assms by (simp add: fetch_eq Let_def clearAuthFail_def split: if_splits)

lemma fetch_unauthorized:
  assumes "fst (fetch encode G req e now) = Response 401"
  shows "AUTH_FAIL_LIMITER (snd (fetch encode G req e now)) =
           AUTH_FAIL_LIMITER (recordAuthFail G (clientIP req) now)"
  using assms by (simp add: fetch_eq Let_def recordAuthFail_auth split: if_splits)

lemma clear_records [simp]: "records (clear L key) key = None"
  by (simp add: clear_def)

text \<open>
  Claim C7. After \<open>clear key\<close>, \<open>getRecord key\<close> is absent, and the limiter treats the key
  as one it has never seen: the next \<open>checkAndIncrement\<close>, and so the next recorded auth
  failure, is allowed and creates a fresh record with count 1. In the pipeline: a request
  whose token verifies leaves no auth-failure record for its client, whatever the record
  held before, and a wrong-token request of the same client that follows it and is
  answered 401 leaves a record with count 1.
\<close>

theorem clear_forgets_failures:
  "getRecord (clear L key) key = None \<and>
   fst (checkAndIncrement (clear L key) key now) \<and>
   getRecord (snd (checkAndIncrement (clear L key) key now)) key =
     Some \<lparr>prevCount = 0, currCount = 1, windowStart = now, bannedUntil = None\<rparr> \<and>
   getRecord (AUTH_FAIL_LIMITER (recordAuthFail (clearAuthFail G key) key now)) key =
     Some \<lparr>prevCount = 0, currCount = 1, windowStart = now, bannedUntil = None\<rparr> \<and>
   (fst (fetch encode G req e t) \<in> {Response 404, Fulfilment} \<longrightarrow>
      getRecord (AUTH_FAIL_LIMITER (snd (fetch encode G req e t))) (clientIP req) = None) \<and>
   (fst (fetch encode G req e t) \<in> {Response 404, Fulfilment} \<and>
    clientIP req' = clientIP req \<and>
    fst (fetch encode (snd (fetch encode G req e t)) req' e' t') = Response 401 \<longrightarrow>
      getRecord (AUTH_FAIL_LIMITER (snd (fetch encode (snd (fetch encode G req e t)) req' e' t')))
        (clientIP req) =
        Some \<lparr>prevCount = 0, currCount = 1, windowStart = t', bannedUntil = None\<rparr>)"
proof (intro conjI impI)
  show "getRecord (clear L key) key = None" by (simp add: getRecord_def)
  have none: "records (cleanup (clear L key) now) key = None"
    by (rule cleanup_None) simp
  from checkAndIncrement_new [OF none]
  show "fst (checkAndIncrement (clear L key) key now)"
    and "getRecord (snd (checkAndIncrement (clear L key) key now)) key =
      Some \<lparr>prevCount = 0, currCount = 1, windowStart = now, bannedUntil = None\<rparr>"
    by (simp_all add: getRecord_def)
  show "getRecord (AUTH_FAIL_LIMITER (recordAuthFail (clearAuthFail G key) key now)) key =
     Some \<lparr>prevCount = 0, currCount = 1, windowStart = now, bannedUntil = None\<rparr>"
    unfolding getRecord_def by (rule recordAuthFail_new) (simp add: clearAuthFail_def)
next
  assume "fst (fetch encode G req e t) \<in> {Response 404, Fulfilment}"
  from fetch_verified [OF this]
  show "getRecord (AUTH_FAIL_LIMITER (snd (fetch encode G req e t))) (clientIP req) = None"
    by (simp add: getRecord_def)
next
  let ?G' = "snd (fetch encode G req e t)"
  assume a: "fst (fetch encode G req e t) \<in> {Response 404, Fulfilment} \<and>
    clientIP req' = clientIP req \<and> fst (fetch encode ?G' req' e' t') = Response 401"
  then have none: "records (AUTH_FAIL_LIMITER ?G') (clientIP req') = None"
    using fetch_verified [of encode G req e t] by simp
  from a have "AUTH_FAIL_LIMITER (snd (fetch encode ?G' req' e' t')) =
                 AUTH_FAIL_LIMITER (recordAuthFail ?G' (clientIP req') t')"
    by (intro fetch_unauthorized) simp
  with recordAuthFail_new [OF none, of t'] a
  show "getRecord (AUTH_FAIL_LIMITER (snd (fetch encode ?G' req' e' t'))) (clientIP req) =
        Some \<lparr>prevCount = 0, currCount = 1, windowStart = t', bannedUntil = None\<rparr>"
    by (simp add: getRecord_def)
qed

lemma fetch_not_found:
  assumes "fst (checkAndIncrement (RATE_LIMITER G) (clientIP req) now)"
    and "\<not> isBanned (AUTH_FAIL_LIMITER G) (clientIP req) now"
    and "YAML_STORAGE e"
    and "verifyToken encode (token req) (ACCESS_TOKEN e)"
    and "pathname req \<noteq> ''/subscribe''"
  shows "fst (fetch encode G req e now) = Response 404"
    and "AUTH_FAIL_LIMITER (snd (fetch encode G req e now)) =
           clear (AUTH_FAIL_LIMITER G) (clientIP req)"
proof -
  have "\<not> falsy (ACCESS_TOKEN e)"
    using assms(4) by (cases "ACCESS_TOKEN e") (auto simp: verifyToken_def)
  then show "fst (fetch encode G req e now) = Response 404"
    using assms by (simp add: fetch_eq Let_def)
  then show "AUTH_FAIL_LIMITER (snd (fetch encode G req e now)) =
           clear (AUTH_FAIL_LIMITER G) (clientIP req)"
    by (intro fetch_verified) simp
qed

text \<open>
  Claim C10. A request passes the traffic limiter and the ban check, the environment is
  configured, the token verifies, and the path is not \<open>/subscribe\<close>. Then the answer is
  404, and yet the auth-failure limiter afterwards is the one before with the record of the
  client cleared: the record is deleted before the path is looked at.
\<close>

theorem token_clears_before_routing:
  assumes "fst (checkAndIncrement (RATE_LIMITER G) (clientIP req) now)"
    and "\<not> isBanned (AUTH_FAIL_LIMITER G) (clientIP req) now"
    and "YAML_STORAGE e"
    and "verifyToken encode (token req) (ACCESS_TOKEN e)"
    and "pathname req \<noteq> ''/subscribe''"
  shows "fst (fetch encode G req e now) = Response 404 \<and>
         AUTH_FAIL_LIMITER (snd (fetch encode G req e now)) =
           clear (AUTH_FAIL_LIMITER G) (clientIP req) \<and>
         getRecord (AUTH_FAIL_LIMITER (snd (fetch encode G req e now))) (clientIP req) = None"
  using fetch_not_found [OF assms] by (simp add: getRecord_def)

lemma clientIP_unknown:
  "falsy (cf_connecting_ip req) \<Longrightarrow> clientIP req = ''unknown''"
  by (simp add: clientIP_def)

lemma fetch_clientIP:
  "clientIP req = clientIP req' \<Longrightarrow> token req = token req' \<Longrightarrow> pathname req = pathname req' \<Longrightarrow>
   fetch encode G req e now = fetch encode G req' e now"
  by (simp add: fetch_eq Let_def)

text \<open>
  Claim C9. A request whose header \<open>CF-Connecting-IP\<close> is absent or empty is keyed under
  \<open>''unknown''\<close>: it is handled exactly as a request that names the client
  \<open>''unknown''\<close>, in both limiters. So all such requests share one window: when the traffic
  limiter (window 60 s, limit 30) holds no record for \<open>''unknown''\<close>, of 31 header-less
  requests each less than a minute after the first, whatever their tokens and paths, the
  first 30 pass the traffic limiter and the 31st is answered 429.
\<close>

theorem headerless_share_unknown:
  "(falsy (cf_connecting_ip req) \<longrightarrow>
      clientIP req = ''unknown'' \<and>
      fetch encode G req e now = fetch encode G (req\<lparr>cf_connecting_ip := Some ''unknown''\<rparr>) e now) \<and>
   (windowMs (RATE_LIMITER G) = 60000 \<and> maxRequests (RATE_LIMITER G) = 30 \<and>
    records (RATE_LIMITER G) ''unknown'' = None \<and> length qs = 31 \<and>
    (\<forall>q \<in> set qs. falsy (cf_connecting_ip (fst q)) \<and> time_of q - time_of (hd qs) < 60000) \<longrightarrow>
      map (\<lambda>r. r = Response 429) (fst (serve encode G qs)) = replicate 30 False @ [True])"
proof (intro conjI impI)
  assume h: "falsy (cf_connecting_ip req)"
  then show "clientIP req = ''unknown''" by (rule clientIP_unknown)
  then show "fetch encode G req e now =
             fetch encode G (req\<lparr>cf_connecting_ip := Some ''unknown''\<rparr>) e now"
    by (intro fetch_clientIP) (simp_all add: clientIP_def)
next
  assume a: "windowMs (RATE_LIMITER G) = 60000 \<and> maxRequests (RATE_LIMITER G) = 30 \<and>
    records (RATE_LIMITER G) ''unknown'' = None \<and> length qs = 31 \<and>
    (\<forall>q \<in> set qs. falsy (cf_connecting_ip (fst q)) \<and> time_of q - time_of (hd qs) < 60000)"
  then obtain q1 rest where qs: "qs = q1 # rest" and rest: "length rest = 30"
    by (cases qs) auto
  let ?cs = "map (\<lambda>q. (''unknown'', time_of q)) rest"
  have ips: "\<forall>q \<in> set qs. clientIP (fst q) = ''unknown''"
    using a by (simp add: clientIP_unknown)
  have times: "\<forall>(k, t) \<in> set ((''unknown'', time_of q1) # ?cs). t - time_of q1 < windowMs (RATE_LIMITER G)"
    using a by (auto simp: qs)
  have cnt: "length (filter (\<lambda>(k, t). k = ''unknown'') ?cs) = 30"
    using rest by (simp add: filter_map comp_def)
  have "map (\<lambda>r. r \<noteq> Response 429) (fst (serve encode G qs)) =
          decisions (RATE_LIMITER G) ''unknown'' ((''unknown'', time_of q1) # ?cs)"
    using serve_rate [OF ips, of encode G] by (simp add: qs del: decisions.simps)
  also have "\<dots> = True # map (\<lambda>i. 1 + int i < 30) [0..<30]"
    using decisions_fresh [OF _ times] a cnt by simp
  also have "\<dots> = replicate 30 True @ [False]"
    using first_max_list [of 30] by simp
  finally have "map Not (map (\<lambda>r. r \<noteq> Response 429) (fst (serve encode G qs))) =
                  map Not (replicate 30 True @ [False])"
    by simp
  then show "map (\<lambda>r. r = Response 429) (fst (serve encode G qs)) = replicate 30 False @ [True]"
    by (simp add: comp_def)
qed

subsection \<open>Runs of the pipeline\<close>

lemma wrong_tokens_from_fresh:
  assumes cfg: "windowMs (AUTH_FAIL_LIMITER G) = 900000" "maxRequests (AUTH_FAIL_LIMITER G) = 5"
    and fresh: "records (AUTH_FAIL_LIMITER G) key = None"
    and len: "qs \<noteq> []" "length qs \<le> 5"
    and wrong: "\<forall>q \<in> set qs. wrong_token_from encode key q \<and>
                  time_of q - time_of (hd qs) < 900000"
    and passed: "Response 429 \<notin> set (fst (serve encode G qs))"
  shows "records (AUTH_FAIL_LIMITER (snd (serve encode G qs))) key =
           Some \<lparr>prevCount = 0, currCount = int (length qs), windowStart = time_of (hd qs),
                 bannedUntil = None\<rparr>"
proof -
  obtain q1 rest where qs: "qs = q1 # rest" using len(1) by (cases qs) auto
  obtain req1 e1 t1 where q1: "q1 = (req1, e1, t1)" by (cases q1)
  have hd: "time_of (hd qs) = t1" by (simp add: qs q1 time_of_def)
  let ?G1 = "snd (fetch encode G req1 e1 t1)"
  have w1: "wrong_token_from encode key (req1, e1, t1)"
    using wrong by (simp add: qs q1)
  have n1: "fst (fetch encode G req1 e1 t1) \<noteq> Response 429"
    and nrest: "Response 429 \<notin> set (fst (serve encode ?G1 rest))"
    using passed by (auto simp: qs q1 split_beta)
  have u1: "\<not> isBanned (AUTH_FAIL_LIMITER G) key t1"
    using fresh by (simp add: isBanned_iff)
  note s1 = fetch_wrong_token [OF w1 n1 u1]
  have rec1: "records (AUTH_FAIL_LIMITER ?G1) key =
                Some \<lparr>prevCount = 0, currCount = 1, windowStart = t1, bannedUntil = None\<rparr>"
    using recordAuthFail_new [OF fresh] by (simp add: s1(2))
  have cfg1: "windowMs (AUTH_FAIL_LIMITER ?G1) = 900000" "maxRequests (AUTH_FAIL_LIMITER ?G1) = 5"
    using cfg by simp_all
  have wrest: "\<forall>q \<in> set rest. wrong_token_from encode key q \<and> time_of q - t1 < 900000"
    using wrong hd by (simp add: qs)
  have l: "1 + int (length rest) \<le> 5" using len(2) by (simp add: qs)
  from serve_wrong_tokens [OF cfg1 rec1 l wrest nrest] hd show ?thesis
    by (simp add: qs q1 split_beta)
qed

lemma four_guesses_pass:
  assumes "\<forall>q \<in> set extra. clientIP (fst q) = ''10.0.0.1'' \<and> time_of q - 1000 < 60000"
    and "length extra < 26"
  shows "Response 429 \<notin> set (fst (serve encode_bytes (init_gateway 0) (four_guesses @ extra)))"
proof (rule serve_pass [where key = "''10.0.0.1''"])
  show "\<forall>q \<in> set (four_guesses @ extra). clientIP (fst q) = ''10.0.0.1''"
    using assms(1) by (auto simp: four_guesses_def)
  let ?cs = "[(''10.0.0.1'', 2000), (''10.0.0.1'', 3000), (''10.0.0.1'', 4000)] @
             map (\<lambda>q. (''10.0.0.1'', time_of q)) extra"
  have "False \<notin> set (decisions (new_RateLimiter 60000 30 0) ''10.0.0.1''
          ((''10.0.0.1'', 1000) # ?cs))"
    using assms by (intro decisions_under_limit) (auto simp: new_RateLimiter_def)
  then show "False \<notin> set (decisions (RATE_LIMITER (init_gateway 0)) ''10.0.0.1''
          (map (\<lambda>q. (''10.0.0.1'', time_of q)) (four_guesses @ extra)))"
    by (simp add: four_guesses_def init_gateway_def del: decisions.simps)
qed

lemma after_four_guesses:
  "records (AUTH_FAIL_LIMITER (snd (serve encode_bytes (init_gateway 0) four_guesses)))
     ''10.0.0.1'' =
     Some \<lparr>prevCount = 0, currCount = 4, windowStart = 1000, bannedUntil = None\<rparr>"
proof -
  have pass: "Response 429 \<notin> set (fst (serve encode_bytes (init_gateway 0) four_guesses))"
    using four_guesses_pass [of "[]"] by simp
  have wrong: "\<forall>q \<in> set four_guesses. wrong_token_from encode_bytes ''10.0.0.1'' q \<and>
                 time_of q - time_of (hd four_guesses) < 900000"
    by (simp add: four_guesses_def guess_wrong)
  have len: "four_guesses \<noteq> []" "length four_guesses \<le> 5"
    by (simp_all add: four_guesses_def)
  from wrong_tokens_from_fresh [OF init_gateway_auth len wrong pass]
  show ?thesis by (simp add: four_guesses_def)
qed

lemma fifth_request_passes:
  assumes "clientIP req = ''10.0.0.1''"
  shows "fst (checkAndIncrement
                (RATE_LIMITER (snd (serve encode_bytes (init_gateway 0) four_guesses)))
                (clientIP req) 5000)"
proof -
  have "Response 429 \<notin> set (fst (serve encode_bytes (init_gateway 0)
                                   (four_guesses @ [(req, configured, 5000)])))"
    using assms by (intro four_guesses_pass) (simp_all add: time_of_def)
  then have "fst (fetch encode_bytes (snd (serve encode_bytes (init_gateway 0) four_guesses))
                    req configured 5000) \<noteq> Response 429"
    by (auto simp: serve_append split_beta)
  then show ?thesis by (simp add: fetch_rate)
qed

text \<open>
  A run of claim C10's theorem: after four wrong guesses the client sends the right token
  to \<open>/other\<close>; the answer is 404 and the record with count 4 is gone.
\<close>

theorem token_clears_before_routing_witness:
  "getRecord (AUTH_FAIL_LIMITER (snd (serve encode_bytes (init_gateway 0) four_guesses)))
     ''10.0.0.1'' =
     Some \<lparr>prevCount = 0, currCount = 4, windowStart = 1000, bannedUntil = None\<rparr> \<and>
   verifyToken encode_bytes (token (knock ''10.0.0.1'' ''/other'')) (ACCESS_TOKEN configured) \<and>
   fst (fetch encode_bytes (snd (serve encode_bytes (init_gateway 0) four_guesses))
          (knock ''10.0.0.1'' ''/other'') configured 5000) = Response 404 \<and>
   getRecord (AUTH_FAIL_LIMITER (snd (fetch encode_bytes
        (snd (serve encode_bytes (init_gateway 0) four_guesses))
        (knock ''10.0.0.1'' ''/other'') configured 5000))) ''10.0.0.1'' = None"
proof -
  define G where "G = snd (serve encode_bytes (init_gateway 0) four_guesses)"
  let ?req = "knock ''10.0.0.1'' ''/other''"
  have ip: "clientIP ?req = ''10.0.0.1''" by (simp add: knock_def clientIP_def)
  have h1: "fst (checkAndIncrement (RATE_LIMITER G) (clientIP ?req) 5000)"
    unfolding G_def using ip by (rule fifth_request_passes)
  have rec: "records (AUTH_FAIL_LIMITER G) ''10.0.0.1'' =
               Some \<lparr>prevCount = 0, currCount = 4, windowStart = 1000, bannedUntil = None\<rparr>"
    unfolding G_def by (rule after_four_guesses)
  have h2: "\<not> isBanned (AUTH_FAIL_LIMITER G) (clientIP ?req) 5000"
    using rec by (simp add: ip isBanned_iff)
  have h3: "YAML_STORAGE configured" by (simp add: configured_def)
  have h4: "verifyToken encode_bytes (token ?req) (ACCESS_TOKEN configured)"
    by (simp add: knock_def configured_def verifyToken_iff)
  have h5: "pathname ?req \<noteq> ''/subscribe''" by (simp add: knock_def)
  from token_clears_before_routing [OF h1 h2 h3 h4 h5] rec h4 ip
  have "getRecord (AUTH_FAIL_LIMITER G) ''10.0.0.1'' =
          Some \<lparr>prevCount = 0, currCount = 4, windowStart = 1000, bannedUntil = None\<rparr> \<and>
        verifyToken encode_bytes (token ?req) (ACCESS_TOKEN configured) \<and>
        fst (fetch encode_bytes G ?req configured 5000) = Response 404 \<and>
        getRecord (AUTH_FAIL_LIMITER (snd (fetch encode_bytes G ?req configured 5000)))
          ''10.0.0.1'' = None"
    by (simp add: getRecord_def)
  then show ?thesis unfolding G_def .
qed

text \<open>
  A run of claim C7's theorem: after four wrong guesses the client sends the right token
  and is served; the record is gone; its next wrong guess is answered 401 and leaves a
  record with count 1, not 5.
\<close>

theorem clear_forgets_failures_witness:
  "getRecord (AUTH_FAIL_LIMITER (snd (serve encode_bytes (init_gateway 0) four_guesses)))
     ''10.0.0.1'' =
     Some \<lparr>prevCount = 0, currCount = 4, windowStart = 1000, bannedUntil = None\<rparr> \<and>
   fst (fetch encode_bytes (snd (serve encode_bytes (init_gateway 0) four_guesses))
          (knock ''10.0.0.1'' ''/subscribe'') configured 5000) = Fulfilment \<and>
   getRecord (AUTH_FAIL_LIMITER (snd (fetch encode_bytes
        (snd (serve encode_bytes (init_gateway 0) four_guesses))
        (knock ''10.0.0.1'' ''/subscribe'') configured 5000))) ''10.0.0.1'' = None \<and>
   fst (fetch encode_bytes
          (snd (fetch encode_bytes (snd (serve encode_bytes (init_gateway 0) four_guesses))
                  (knock ''10.0.0.1'' ''/subscribe'') configured 5000))
          (fst (guess ''10.0.0.1'' 6000)) configured 6000) = Response 401 \<and>
   getRecord (AUTH_FAIL_LIMITER (snd (fetch encode_bytes
        (snd (fetch encode_bytes (snd (serve encode_bytes (init_gateway 0) four_guesses))
                (knock ''10.0.0.1'' ''/subscribe'') configured 5000))
        (fst (guess ''10.0.0.1'' 6000)) configured 6000))) ''10.0.0.1'' =
     Some \<lparr>prevCount = 0, currCount = 1, windowStart = 6000, bannedUntil = None\<rparr>"
proof -
  define G where "G = snd (serve encode_bytes (init_gateway 0) four_guesses)"
  define req where "req = knock ''10.0.0.1'' ''/subscribe''"
  define G' where "G' = snd (fetch encode_bytes G req configured 5000)"
  define req' where "req' = fst (guess ''10.0.0.1'' 6000)"
  have ip: "clientIP req = ''10.0.0.1''" "clientIP req' = ''10.0.0.1''"
    by (simp_all add: req_def req'_def knock_def guess_def clientIP_def)
  have rec: "records (AUTH_FAIL_LIMITER G) ''10.0.0.1'' =
               Some \<lparr>prevCount = 0, currCount = 4, windowStart = 1000, bannedUntil = None\<rparr>"
    unfolding G_def by (rule after_four_guesses)
  have h1: "fst (checkAndIncrement (RATE_LIMITER G) (clientIP req) 5000)"
    unfolding G_def using ip(1) by (rule fifth_request_passes)
  have h2: "\<not> isBanned (AUTH_FAIL_LIMITER G) (clientIP req) 5000"
    using rec by (simp add: ip isBanned_iff)
  have h4: "verifyToken encode_bytes (token req) (ACCESS_TOKEN configured)"
    by (simp add: req_def knock_def configured_def verifyToken_iff)
  have a: "fst (fetch encode_bytes G req configured 5000) = Fulfilment"
    using h1 h2 h4 by (simp add: fetch_eq Let_def) (simp add: req_def knock_def configured_def)
  have pass: "Response 429 \<notin> set (fst (serve encode_bytes (init_gateway 0)
                 (four_guesses @ [(req, configured, 5000), (req', configured, 6000)])))"
    using ip by (intro four_guesses_pass) (simp_all add: time_of_def)
  then have n: "fst (fetch encode_bytes G' req' configured 6000) \<noteq> Response 429"
    by (auto simp: serve_append split_beta G_def G'_def)
  have none: "records (AUTH_FAIL_LIMITER G') ''10.0.0.1'' = None"
    using fetch_verified [of encode_bytes G req configured 5000] a
    by (simp add: G'_def ip)
  have u: "\<not> isBanned (AUTH_FAIL_LIMITER G') ''10.0.0.1'' 6000"
    using none by (simp add: isBanned_iff)
  have w: "wrong_token_from encode_bytes ''10.0.0.1'' (req', configured, 6000)"
    using guess_wrong [of "''10.0.0.1''" 6000] by (simp add: req'_def guess_def)
  have b: "fst (fetch encode_bytes G' req' configured 6000) = Response 401"
    by (rule fetch_wrong_token(1) [OF w n u])
  from clear_forgets_failures [where encode = encode_bytes and G = G and req = req
      and e = configured and t = 5000 and req' = req' and e' = configured and t' = 6000]
    a b rec ip
  have "getRecord (AUTH_FAIL_LIMITER G) ''10.0.0.1'' =
          Some \<lparr>prevCount = 0, currCount = 4, windowStart = 1000, bannedUntil = None\<rparr> \<and>
        fst (fetch encode_bytes G req configured 5000) = Fulfilment \<and>
        getRecord (AUTH_FAIL_LIMITER G') ''10.0.0.1'' = None \<and>
        fst (fetch encode_bytes G' req' configured 6000) = Response 401 \<and>
        getRecord (AUTH_FAIL_LIMITER (snd (fetch encode_bytes G' req' configured 6000)))
          ''10.0.0.1'' =
          Some \<lparr>prevCount = 0, currCount = 1, windowStart = 6000, bannedUntil = None\<rparr>"
    by (simp add: getRecord_def G'_def)
  then show ?thesis unfolding G'_def G_def req_def req'_def .
qed

lemma headerless_fields [simp]:
  "time_of (headerless t) = t"
  "cf_connecting_ip (fst (headerless t)) = None"
  by (simp_all add: headerless_def time_of_def)

text \<open>
  A run of claim C9's theorem: 31 requests without the header, one every second, from the
  initial state.
\<close>

theorem headerless_share_unknown_witness:
  "length burst = 31 \<and>
   list_all (\<lambda>q. falsy (cf_connecting_ip (fst q))) burst \<and>
   records (RATE_LIMITER (init_gateway 0)) ''unknown'' = None \<and>
   clientIP (fst (headerless 0)) = ''unknown'' \<and>
   map (\<lambda>r. r = Response 429) (fst (serve encode_bytes (init_gateway 0) burst)) =
     replicate 30 False @ [True]"
proof -
  have len: "length burst = 31" by (simp add: burst_def)
  have hd: "hd burst = headerless 0" by (simp add: burst_def hd_map)
  have all: "\<forall>q \<in> set burst. falsy (cf_connecting_ip (fst q)) \<and>
                time_of q - time_of (hd burst) < 60000"
    unfolding hd by (auto simp: burst_def)
  have cfg: "windowMs (RATE_LIMITER (init_gateway 0)) = 60000"
    "maxRequests (RATE_LIMITER (init_gateway 0)) = 30"
    "records (RATE_LIMITER (init_gateway 0)) ''unknown'' = None"
    by (simp_all add: init_gateway_def new_RateLimiter_def)
  from headerless_share_unknown [where encode = encode_bytes and G = "init_gateway 0"
      and qs = burst and req = "fst (headerless 0)"] len all cfg
  show ?thesis by (simp add: list_all_iff)
qed

end
